theory Spec2Isabelle
  imports Complex_Main "HOL-Library.Multiset"
begin

section \<open>The TTL cache (class CacheManager)\<close>

text \<open>
  The cache is a dictionary from keys to pairs (value, timestamp) together with the
  time-to-live. Every method body runs under the one lock of the object, so each method
  is one atomic step: a function from the state before to the state after. The reading
  of \<^verbatim>\<open>time.time()\<close> taken inside the method is an argument of the step.
\<close>

record 'v CacheManager =
  cache :: "string \<rightharpoonup> ('v \<times> real)"
  ttl :: real

definition CacheManager_init :: "real \<Rightarrow> 'v CacheManager" where
  "CacheManager_init t = \<lparr>cache = Map.empty, ttl = t\<rparr>"

text \<open>\<^verbatim>\<open>get\<close>: the value when the key is present and younger than the TTL; an entry that
  is present but expired is deleted and the result is \<^verbatim>\<open>None\<close>.\<close>

definition CacheManager_get ::
  "'v CacheManager \<Rightarrow> real \<Rightarrow> string \<Rightarrow> 'v option \<times> 'v CacheManager" where
  "CacheManager_get c now key =
     (case cache c key of
        None \<Rightarrow> (None, c)
      | Some (data, timestamp) \<Rightarrow>
          if now - timestamp < ttl c then (Some data, c)
          else (None, c\<lparr>cache := (cache c)(key := None)\<rparr>))"

definition CacheManager_set ::
  "'v CacheManager \<Rightarrow> real \<Rightarrow> string \<Rightarrow> 'v \<Rightarrow> 'v CacheManager" where
  "CacheManager_set c now key v = c\<lparr>cache := (cache c)(key \<mapsto> (v, now))\<rparr>"

definition CacheManager_clear :: "'v CacheManager \<Rightarrow> 'v CacheManager" where
  "CacheManager_clear c = c\<lparr>cache := Map.empty\<rparr>"


section \<open>Python strings\<close>

text \<open>
  A Python \<^verbatim>\<open>str\<close> is modelled as a \<^typ>\<open>string\<close>, one \<^typ>\<open>char\<close> per code point; the
  model covers the code points below 256. The functions below are the string methods
  the program calls.
\<close>

definition startswith :: "string \<Rightarrow> string \<Rightarrow> bool" where
  "startswith s p = (take (length p) s = p)"

definition endswith :: "string \<Rightarrow> string \<Rightarrow> bool" where
  "endswith s p = (length p \<le> length s \<and> drop (length s - length p) s = p)"

text \<open>\<^verbatim>\<open>p in s\<close>: the string \<open>p\<close> occurs in \<open>s\<close>.\<close>

fun is_in :: "string \<Rightarrow> string \<Rightarrow> bool" where
  "is_in p [] = (p = [])"
| "is_in p (c # cs) = (startswith (c # cs) p \<or> is_in p cs)"

definition ascii_uppercase :: string where
  "ascii_uppercase = ''ABCDEFGHIJKLMNOPQRSTUVWXYZ''"

definition ascii_lowercase :: string where
  "ascii_lowercase = ''abcdefghijklmnopqrstuvwxyz''"

text \<open>\<^verbatim>\<open>str.lower\<close> on one character: the ASCII capitals and the capitals of the Latin-1
  block (192 to 222 without the multiplication sign 215) move to their small letters.\<close>

definition lower_char :: "char \<Rightarrow> char" where
  "lower_char c =
     (case map_of (zip ascii_uppercase ascii_lowercase) c of
        Some d \<Rightarrow> d
      | None \<Rightarrow>
          (let n = (of_char c :: nat)
           in if 192 \<le> n \<and> n \<le> 222 \<and> n \<noteq> 215 then char_of (n + 32) else c))"

definition lower :: "string \<Rightarrow> string" where
  "lower s = map lower_char s"

text \<open>\<^verbatim>\<open>str.isspace\<close> for one character, which is also what \<^verbatim>\<open>\s\<close> matches in a
  pattern over \<^verbatim>\<open>str\<close>: tab to carriage return, the separators 28 to 31, the space,
  NEL (133) and the no-break space (160).\<close>

definition isspace :: "char \<Rightarrow> bool" where
  "isspace c =
     (let n = (of_char c :: nat)
      in (9 \<le> n \<and> n \<le> 13) \<or> (28 \<le> n \<and> n \<le> 32) \<or> n = 133 \<or> n = 160)"

definition strip :: "string \<Rightarrow> string" where
  "strip s = rev (dropWhile isspace (rev (dropWhile isspace s)))"

definition lstrip :: "char \<Rightarrow> string \<Rightarrow> string" where
  "lstrip c s = dropWhile (\<lambda>x. x = c) s"

text \<open>\<^verbatim>\<open>s.replace(old, new)\<close>: every occurrence of \<open>old\<close>, found from the left without
  overlap, becomes \<open>new\<close>; an empty \<open>old\<close> matches before every character and at the end.\<close>

function replace :: "string \<Rightarrow> string \<Rightarrow> string \<Rightarrow> string" where
  "replace old new [] = (if old = [] then new else [])"
| "replace old new (c # cs) =
     (if old = [] then new @ c # replace old new cs
      else if startswith (c # cs) old then new @ replace old new (drop (length old) (c # cs))
      else c # replace old new cs)"
  by pat_completeness auto
termination
  by (relation "measure (\<lambda>(old, new, s). length s)") auto

text \<open>\<^verbatim>\<open>s.find(c)\<close> for a single character: the index of its first occurrence.\<close>

fun find_char :: "char \<Rightarrow> string \<Rightarrow> nat option" where
  "find_char c [] = None"
| "find_char c (x # xs) =
     (if x = c then Some 0 else map_option Suc (find_char c xs))"

text \<open>\<^verbatim>\<open>s.rfind(c)\<close>: the index of the last occurrence.\<close>

fun rfind_char :: "char \<Rightarrow> string \<Rightarrow> nat option" where
  "rfind_char c [] = None"
| "rfind_char c (x # xs) =
     (case rfind_char c xs of
        Some i \<Rightarrow> Some (Suc i)
      | None \<Rightarrow> if x = c then Some 0 else None)"

text \<open>\<^verbatim>\<open>s.split(c)\<close> with a separator: never the empty list.\<close>

fun split :: "char \<Rightarrow> string \<Rightarrow> string list" where
  "split c [] = [[]]"
| "split c (x # xs) =
     (if x = c then [] # split c xs
      else (case split c xs of
              [] \<Rightarrow> [[x]]
            | y # ys \<Rightarrow> (x # y) # ys))"

text \<open>\<^verbatim>\<open>sep.join(parts)\<close>.\<close>

fun join :: "string \<Rightarrow> string list \<Rightarrow> string" where
  "join sep [] = []"
| "join sep [x] = x"
| "join sep (x # y # ys) = x @ sep @ join sep (y # ys)"

text \<open>Truth value of a string, and of an optional string (\<^verbatim>\<open>None\<close> is false).\<close>

definition nonempty :: "string option \<Rightarrow> bool" where
  "nonempty v = (case v of None \<Rightarrow> False | Some s \<Rightarrow> s \<noteq> [])"

text \<open>\<^verbatim>\<open>list(set(xs))\<close>: the distinct elements in the iteration order of the set, which
  depends on the hashes. The order is an input: \<open>order\<close> lists positions of the
  duplicate-free list, and a list of positions that is not a permutation is ignored.
  The same function gives the order in which \<^verbatim>\<open>as_completed\<close> yields futures.\<close>

definition permute :: "nat list \<Rightarrow> 'a list \<Rightarrow> 'a list" where
  "permute order xs =
     (if sort order = [0..<length xs] then map (\<lambda>i. xs ! i) order else xs)"

definition list_set :: "(string list \<Rightarrow> nat list) \<Rightarrow> string list \<Rightarrow> string list" where
  "list_set hash_order xs = permute (hash_order (remdups xs)) (remdups xs)"

section \<open>Values, exceptions and the environment\<close>

definition BASE_URL :: string where
  "BASE_URL = ''https://animesalt.cc''"

definition remove_base_url :: "string \<Rightarrow> string" where
  "remove_base_url u = (if startswith u BASE_URL then replace BASE_URL [] u else u)"

definition add_base_url :: "string \<Rightarrow> string" where
  "add_base_url u =
     (if \<not> startswith u ''http''
      then (if startswith u ''/'' then BASE_URL @ u else BASE_URL @ ''/'' @ u)
      else u)"

text \<open>The exceptions that reach a handler of the program, and \<^verbatim>\<open>str(e)\<close>.\<close>

datatype exn =
    Exception string
  | IndexError
  | ValueError string
  | OtherError string

fun str_exn :: "exn \<Rightarrow> string" where
  "str_exn (Exception m) = m"
| "str_exn IndexError = ''list assignment index out of range''"
| "str_exn (ValueError m) = m"
| "str_exn (OtherError m) = m"

text \<open>One episode of the detail response (keys \<^verbatim>\<open>episode_number\<close>, \<^verbatim>\<open>title\<close>, \<^verbatim>\<open>url\<close>,
  \<^verbatim>\<open>image_url\<close>), the detail response itself (keys \<^verbatim>\<open>title\<close>, \<^verbatim>\<open>url\<close>, \<^verbatim>\<open>image_url\<close>,
  \<^verbatim>\<open>languages\<close>, \<^verbatim>\<open>total_episodes\<close>, \<^verbatim>\<open>episodes\<close>) and the stream response.\<close>

record episode =
  episode_number :: string
  episode_title :: string
  episode_link :: string
  episode_image_url :: string

record anime_data =
  anime_title :: string
  anime_url :: string
  anime_image_url :: string
  anime_languages :: "string list"
  total_episodes :: nat
  episodes :: "episode list"

record stream_result =
  episode_url :: string
  m3u8_links :: "string list"
  video_links :: "string list"
  iframes :: "string list"
  total_streams :: nat

text \<open>What the one cache object holds: page bodies stored by \<^verbatim>\<open>fetch_with_cache\<close>, the
  results of the detail and stream endpoints, and the results of the home and search
  endpoints, of which only the truth value matters here.\<close>

datatype cached_value =
    Body string
  | AnimeInfo anime_data
  | Streams stream_result
  | Opaque bool

fun truthy :: "cached_value \<Rightarrow> bool" where
  "truthy (Body s) = (s \<noteq> [])"
| "truthy (AnimeInfo d) = True"
| "truthy (Streams r) = True"
| "truthy (Opaque b) = b"

text \<open>A JSON response with its status: 200, 404 or 500.\<close>

datatype response =
    Ok200 cached_value
  | Err404 string
  | Err500 string

text \<open>What a GET of the shared session ends in, seen from \<^verbatim>\<open>fetch_with_cache\<close>: a
  \<^verbatim>\<open>RequestException\<close> (connection failure, timeout, a status that
  \<^verbatim>\<open>raise_for_status\<close> refuses), an exception of the gzip decoding, or the decoded page.\<close>

datatype http_outcome =
    RequestException string
  | DecodeError string
  | Page string

text \<open>The parsed detail page, as far as the selectors of \<^verbatim>\<open>get_anime_info\<close> read it.\<close>

record season_button =
  data_post :: "string option"
  data_season :: "string option"

record soup =
  h1 :: "string option"
  og_image_content :: "string option"
  lang_tags :: "string list"
  season_buttons :: "season_button list"

text \<open>One \<^verbatim>\<open>li\<close> element of a season listing: the \<^verbatim>\<open>href\<close> of its \<^verbatim>\<open>a.lnk-blk\<close> (if the
  tag and the attribute exist), the texts of \<^verbatim>\<open>span.num-epi\<close> and \<^verbatim>\<open>h2.entry-title\<close>,
  and the attributes \<^verbatim>\<open>data-src\<close> and \<^verbatim>\<open>src\<close> of the image inside
  \<^verbatim>\<open>div.post-thumbnail\<close>.\<close>

record li =
  lnk_blk_href :: "string option"
  num_epi :: "string option"
  entry_title :: "string option"
  thumbnail_img :: "(string option \<times> string option) option"

text \<open>What the AJAX call of one season ends in, inside \<^verbatim>\<open>get_episodes_for_season\<close>.\<close>

datatype ajax_outcome =
    AjaxRequestException
  | AjaxOtherError string
  | AjaxItems "li list"

text \<open>
  Everything outside the program is an input of the model:
  \<^item> \<open>clock n\<close>: the value of the \<open>n\<close>-th call of \<^verbatim>\<open>time.time()\<close>;
  \<^item> \<open>md5_hexdigest\<close>: \<^verbatim>\<open>hashlib.md5(url.encode()).hexdigest()\<close>;
  \<^item> \<open>session_get n u\<close>: the outcome of the GET of \<open>u\<close> on the shared session after \<open>n\<close>
    earlier ones;
  \<^item> \<open>parse_page\<close>: the HTML parser applied to the detail page, with what the selectors
    of the endpoint find in the tree, or the exception the parser raises on markup it
    rejects;
  \<^item> \<open>ajax_get i post season\<close>: the AJAX call of the task submitted for button \<open>i\<close>;
  \<^item> \<open>local_get u\<close>: the text of script \<open>u\<close>, fetched on a session of its own
    (\<^verbatim>\<open>None\<close>: any exception);
  \<^item> \<open>season_completion\<close>, \<open>js_completion\<close>: the order in which \<^verbatim>\<open>as_completed\<close> yields
    the futures of the two thread pools;
  \<^item> \<open>hash_order\<close>: the iteration order of a set of strings;
  \<^item> \<open>check_bracketed_host\<close>, \<open>checknetloc\<close>: the two validity checks of the URL
    library on a network location (true: the check passes).
\<close>

record env =
  clock :: "nat \<Rightarrow> real"
  md5_hexdigest :: "string \<Rightarrow> string"
  session_get :: "nat \<Rightarrow> string \<Rightarrow> http_outcome"
  parse_page :: "string \<Rightarrow> exn + soup"
  ajax_get :: "nat \<Rightarrow> string option \<Rightarrow> string option \<Rightarrow> ajax_outcome"
  local_get :: "string \<Rightarrow> string option"
  season_completion :: "nat list"
  js_completion :: "nat list"
  hash_order :: "string list \<Rightarrow> nat list"
  check_bracketed_host :: "string \<Rightarrow> bool"
  checknetloc :: "string \<Rightarrow> bool"

text \<open>The state of the process: the global cache object, the number of clock readings
  taken so far, and the URLs fetched on the shared session so far.\<close>

record world =
  the_cache :: "cached_value CacheManager"
  ticks :: nat
  gets :: "string list"

text \<open>\<^verbatim>\<open>cache.get(key)\<close> and \<^verbatim>\<open>cache.set(key, value)\<close> on the global object. The clock is
  read by \<^verbatim>\<open>get\<close> only when the key is in the dictionary.\<close>

definition cache_get :: "env \<Rightarrow> string \<Rightarrow> world \<Rightarrow> cached_value option \<times> world" where
  "cache_get e key w =
     (case cache (the_cache w) key of
        None \<Rightarrow> (None, w)
      | Some entry \<Rightarrow>
          (fst (CacheManager_get (the_cache w) (clock e (ticks w)) key),
           w\<lparr>the_cache := snd (CacheManager_get (the_cache w) (clock e (ticks w)) key),
             ticks := Suc (ticks w)\<rparr>))"

definition cache_set :: "env \<Rightarrow> string \<Rightarrow> cached_value \<Rightarrow> world \<Rightarrow> world" where
  "cache_set e key v w =
     w\<lparr>the_cache := CacheManager_set (the_cache w) (clock e (ticks w)) key v,
       ticks := Suc (ticks w)\<rparr>"

text \<open>\<^verbatim>\<open>if cached_data:\<close> on the result of \<^verbatim>\<open>cache.get\<close>.\<close>

definition hit :: "cached_value option \<Rightarrow> bool" where
  "hit r = (case r of None \<Rightarrow> False | Some v \<Rightarrow> truthy v)"

section \<open>The content fetcher\<close>

text \<open>The network call of \<^verbatim>\<open>fetch_with_cache\<close> with its exception handler: a
  \<^verbatim>\<open>RequestException\<close> is raised again as an \<^verbatim>\<open>Exception\<close> with a message, any other
  exception passes.\<close>

definition fetch_network :: "env \<Rightarrow> string \<Rightarrow> world \<Rightarrow> (exn + string) \<times> world" where
  "fetch_network e u w =
     (case session_get e (length (gets w)) u of
        RequestException m \<Rightarrow> (Inl (Exception (''Error fetching URL: '' @ m)), w\<lparr>gets := gets w @ [u]\<rparr>)
      | DecodeError m \<Rightarrow> (Inl (OtherError m), w\<lparr>gets := gets w @ [u]\<rparr>)
      | Page html_content \<Rightarrow> (Inr html_content, w\<lparr>gets := gets w @ [u]\<rparr>))"

definition fetch_with_cache ::
  "env \<Rightarrow> string \<Rightarrow> bool \<Rightarrow> world \<Rightarrow> (exn + cached_value) \<times> world" where
  "fetch_with_cache e u use_cache w =
     (if use_cache then
        (let cache_key = md5_hexdigest e u;
             cached_data = fst (cache_get e cache_key w);
             w1 = snd (cache_get e cache_key w)
         in case (if hit cached_data then cached_data else None) of
              Some v \<Rightarrow> (Inr v, w1)
            | None \<Rightarrow>
               (case fetch_network e u w1 of
                  (Inl ex, w2) \<Rightarrow> (Inl ex, w2)
                | (Inr html_content, w2) \<Rightarrow>
                    (Inr (Body html_content), cache_set e cache_key (Body html_content) w2)))
      else
        (case fetch_network e u w of
           (Inl ex, w2) \<Rightarrow> (Inl ex, w2)
         | (Inr html_content, w2) \<Rightarrow> (Inr (Body html_content), w2)))"

section \<open>The detail endpoint (get\_anime\_info)\<close>

text \<open>The condition of the dictionary comprehension that submits the season tasks: both
  attributes are present and not empty.\<close>

definition valid_button :: "season_button \<Rightarrow> bool" where
  "valid_button button = (nonempty (data_post button) \<and> nonempty (data_season button))"

text \<open>\<^verbatim>\<open>get_episodes_for_season\<close>: a \<^verbatim>\<open>RequestException\<close> is caught and gives the empty
  list, any other exception leaves the function. The first argument names the task, so
  that the environment can answer each call differently.\<close>

definition get_episodes_for_season ::
  "env \<Rightarrow> nat \<Rightarrow> string option \<Rightarrow> string option \<Rightarrow> exn + li list" where
  "get_episodes_for_season e i post_id season_num =
     (case ajax_get e i post_id season_num of
        AjaxRequestException \<Rightarrow> Inr []
      | AjaxOtherError m \<Rightarrow> Inl (OtherError m)
      | AjaxItems items \<Rightarrow> Inr items)"

text \<open>The dictionary \<^verbatim>\<open>future_to_season\<close>: one future per valid button, mapped to the
  position of the button among all season buttons. A future is represented by what
  its task ends in.\<close>

definition future_to_season :: "env \<Rightarrow> season_button list \<Rightarrow> ((exn + li list) \<times> nat) list" where
  "future_to_season e buttons =
     map (\<lambda>(i, button).
            (get_episodes_for_season e i (data_post button) (data_season button), i))
       (filter (\<lambda>(i, button). valid_button button) (enumerate 0 buttons))"

text \<open>The loop over \<^verbatim>\<open>as_completed\<close>. The assignment \<^verbatim>\<open>season_results[index] = ...\<close>
  raises \<^verbatim>\<open>IndexError\<close> when the index is outside the list; the handler of the loop body
  then makes the same assignment and raises again, so the exception leaves the loop.
  Inside the list, the slot receives the result of the future, or the empty list when
  the future raised.\<close>

definition result_or_empty :: "exn + li list \<Rightarrow> li list" where
  "result_or_empty result = (case result of Inl ex \<Rightarrow> [] | Inr items \<Rightarrow> items)"

fun collect_results ::
  "((exn + li list) \<times> nat) list \<Rightarrow> li list option list \<Rightarrow> exn + li list option list" where
  "collect_results [] season_results = Inr season_results"
| "collect_results ((result, index) # futures) season_results =
     (if index < length season_results
      then collect_results futures (season_results[index := Some (result_or_empty result)])
      else Inl IndexError)"

text \<open>The loop that extends \<^verbatim>\<open>all_episode_items\<close> by every result that is neither
  \<^verbatim>\<open>None\<close> nor empty.\<close>

definition all_episode_items :: "li list option list \<Rightarrow> li list" where
  "all_episode_items season_results =
     concat (map (\<lambda>r. case r of None \<Rightarrow> [] | Some items \<Rightarrow> items) season_results)"

text \<open>The body of the loop over the episode items: an item without a link is skipped.\<close>

definition episode_of_item :: "li \<Rightarrow> episode option" where
  "episode_of_item item =
     (case lnk_blk_href item of
        None \<Rightarrow> None
      | Some href \<Rightarrow>
          if href = [] then None
          else Some
            \<lparr>episode_number = (case num_epi item of Some t \<Rightarrow> strip t | None \<Rightarrow> ''N/A''),
             episode_title = (case entry_title item of Some t \<Rightarrow> strip t | None \<Rightarrow> ''N/A''),
             episode_link =
               remove_base_url
                 (if startswith href ''/'' then BASE_URL @ lstrip CHR ''/'' href else href),
             episode_image_url =
               (case thumbnail_img item of
                  None \<Rightarrow> ''N/A''
                | Some (data_src, src) \<Rightarrow>
                    (case data_src of
                       Some a \<Rightarrow> if a \<noteq> [] then a else
                         (case src of Some b \<Rightarrow> if b \<noteq> [] then b else ''N/A'' | None \<Rightarrow> ''N/A'')
                     | None \<Rightarrow>
                         (case src of Some b \<Rightarrow> if b \<noteq> [] then b else ''N/A'' | None \<Rightarrow> ''N/A'')))\<rparr>)"

text \<open>The endpoint. Its outer handler turns every exception into a response with status
  500 and the text of the exception: an exception of the fetch, an exception of the
  parser on the fetched page, and the \<^verbatim>\<open>IndexError\<close> of the loop over the futures. The
  parser applied to a cached value that is not a page body raises as well; the text of
  that exception is written \<open>''markup''\<close> here.\<close>

definition get_anime_info :: "env \<Rightarrow> string \<Rightarrow> world \<Rightarrow> response \<times> world" where
  "get_anime_info e url_path w =
     (let cache_key = ''anime_info_'' @ url_path;
          cached_result = fst (cache_get e cache_key w);
          w1 = snd (cache_get e cache_key w)
      in case (if hit cached_result then cached_result else None) of
           Some v \<Rightarrow> (Ok200 v, w1)
         | None \<Rightarrow>
            (case fetch_with_cache e (add_base_url url_path) True w1 of
               (Inl ex, w2) \<Rightarrow> (Err500 (str_exn ex), w2)
             | (Inr (AnimeInfo d), w2) \<Rightarrow> (Err500 ''markup'', w2)
             | (Inr (Streams r), w2) \<Rightarrow> (Err500 ''markup'', w2)
             | (Inr (Opaque b), w2) \<Rightarrow> (Err500 ''markup'', w2)
             | (Inr (Body html_content), w2) \<Rightarrow>
                (case parse_page e html_content of
                   Inl ex \<Rightarrow> (Err500 (str_exn ex), w2)
                 | Inr page \<Rightarrow>
                    (let title = (case h1 page of Some t \<Rightarrow> strip t | None \<Rightarrow> ''N/A'');
                         image_url =
                           (case og_image_content page of
                              Some c \<Rightarrow> if c \<noteq> [] then c else ''N/A''
                            | None \<Rightarrow> ''N/A'');
                         languages = map strip (lang_tags page)
                     in if season_buttons page = []
                        then (Err404 ''No season buttons found'', w2)
                        else
                          (let futures = future_to_season e (season_buttons page)
                           in case collect_results (permute (season_completion e) futures)
                                     (replicate (length futures) None) of
                                Inl ex \<Rightarrow> (Err500 (str_exn ex), w2)
                              | Inr season_results \<Rightarrow>
                                 (let all_episodes =
                                        List.map_filter episode_of_item
                                          (all_episode_items season_results);
                                      anime =
                                        \<lparr>anime_title = title,
                                         anime_url = url_path,
                                         anime_image_url = image_url,
                                         anime_languages = languages,
                                         total_episodes = length all_episodes,
                                         episodes = all_episodes\<rparr>
                                  in (Ok200 (AnimeInfo anime),
                                      cache_set e cache_key (AnimeInfo anime) w2)))))))"

text \<open>Three notions for stating properties of the endpoint. The page a detail request
  fetches: the body that \<^verbatim>\<open>fetch_with_cache\<close> returns after the cache had no usable
  result for the request (none when the result comes from the cache, the fetch raises,
  or the fetched value is not a page body). The page it works on: what the parser makes
  of the fetched page (none when the parser raises). The contribution of the task of
  button \<open>i\<close>: the list items its future results in, empty when the task fails.\<close>

definition fetched_detail_page :: "env \<Rightarrow> string \<Rightarrow> world \<Rightarrow> string option" where
  "fetched_detail_page e url_path w =
     (if hit (fst (cache_get e (''anime_info_'' @ url_path) w)) then None
      else (case fst (fetch_with_cache e (add_base_url url_path) True
                        (snd (cache_get e (''anime_info_'' @ url_path) w))) of
              Inr (Body html_content) \<Rightarrow> Some html_content
            | _ \<Rightarrow> None))"

definition parsed_detail_page :: "env \<Rightarrow> string \<Rightarrow> world \<Rightarrow> soup option" where
  "parsed_detail_page e url_path w =
     (case fetched_detail_page e url_path w of
        None \<Rightarrow> None
      | Some html_content \<Rightarrow>
          (case parse_page e html_content of Inl ex \<Rightarrow> None | Inr page \<Rightarrow> Some page))"

definition season_items :: "env \<Rightarrow> nat \<Rightarrow> season_button \<Rightarrow> li list" where
  "season_items e i button =
     result_or_empty (get_episodes_for_season e i (data_post button) (data_season button))"

text \<open>A property of every value in the cache.\<close>

definition cache_all :: "(cached_value \<Rightarrow> bool) \<Rightarrow> world \<Rightarrow> bool" where
  "cache_all P w = (\<forall>key v ts. cache (the_cache w) key = Some (v, ts) \<longrightarrow> P v)"

text \<open>A cached value that is a detail result counts its episodes.\<close>

definition counts_episodes :: "cached_value \<Rightarrow> bool" where
  "counts_episodes v =
     (case v of AnimeInfo d \<Rightarrow> total_episodes d = length (episodes d) | _ \<Rightarrow> True)"

section \<open>The patterns of the stream endpoint\<close>

text \<open>
  The program compiles four patterns with \<^verbatim>\<open>re.IGNORECASE\<close> and calls \<^verbatim>\<open>findall\<close> on
  each. A pattern is modelled as a function that tries to match at the start of a
  string and returns the length of the match with the text of its one group. The
  functions follow the backtracking matcher: a greedy repetition takes all it can and
  gives characters back one at a time until the rest of the pattern matches.
\<close>

text \<open>A literal in lower case matched without regard to case.\<close>

definition imatch :: "string \<Rightarrow> string \<Rightarrow> bool" where
  "imatch lit s = (lower (take (length lit) s) = lit)"

text \<open>The class \<^verbatim>\<open>[^\s"'<>`]\<close>: the double quote is character 34, the single quote 39 and
  the backtick 96.\<close>

definition url_char :: "char \<Rightarrow> bool" where
  "url_char c = (\<not> isspace c \<and> c \<notin> set [CHR 0x22, CHR 0x27, CHR ''<'', CHR ''>'', CHR 0x60])"

text \<open>\<^verbatim>\<open>https?://\<close>: the length of the prefix matched.\<close>

definition http_prefix :: "string \<Rightarrow> nat option" where
  "http_prefix s =
     (if imatch ''https://'' s then Some 8
      else if imatch ''http://'' s then Some 7
      else None)"

text \<open>A greedy repetition \<^verbatim>\<open>X+\<close> that can take up to \<open>j\<close> characters of \<open>s\<close>, followed by
  the rest of the pattern \<open>k\<close>: the longest repetition after which \<open>k\<close> matches.\<close>

fun backtrack :: "(string \<Rightarrow> 'a option) \<Rightarrow> string \<Rightarrow> nat \<Rightarrow> (nat \<times> 'a) option" where
  "backtrack k s 0 = None"
| "backtrack k s (Suc j) =
     (case k (drop (Suc j) s) of
        Some r \<Rightarrow> Some (Suc j, r)
      | None \<Rightarrow> backtrack k s j)"

text \<open>\<^verbatim>\<open>\.m3u8[^\s"'<>`]*\<close>, the end of the first pattern.\<close>

definition m3u8_tail :: "string \<Rightarrow> nat option" where
  "m3u8_tail s =
     (if imatch ''.m3u8'' s then Some (5 + length (takeWhile url_char (drop 5 s))) else None)"

text \<open>\<^verbatim>\<open>(https?://[^\s"'<>`]+\.m3u8[^\s"'<>`]*)\<close>\<close>

definition m3u8_pattern :: "string \<Rightarrow> (nat \<times> string) option" where
  "m3u8_pattern s =
     (case http_prefix s of
        None \<Rightarrow> None
      | Some p \<Rightarrow>
          (case backtrack m3u8_tail (drop p s) (length (takeWhile url_char (drop p s))) of
             None \<Rightarrow> None
           | Some (j, t) \<Rightarrow> Some (p + j + t, take (p + j + t) s)))"

text \<open>\<^verbatim>\<open>\.(?:mp4|webm|ogg|mov|mkv|ts)(?:\?[^\s"'<>`]*)?\<close>, the end of the second pattern:
  the first alternative that matches, then the query if a question mark follows.\<close>

definition video_extensions :: "string list" where
  "video_extensions = [''mp4'', ''webm'', ''ogg'', ''mov'', ''mkv'', ''ts'']"

definition video_tail :: "string \<Rightarrow> nat option" where
  "video_tail s =
     (case s of
        [] \<Rightarrow> None
      | c # r \<Rightarrow>
          if c \<noteq> CHR ''.'' then None
          else (case find (\<lambda>x. imatch x r) video_extensions of
                  None \<Rightarrow> None
                | Some x \<Rightarrow>
                    Some (1 + length x +
                      (case drop (length x) r of
                         [] \<Rightarrow> 0
                       | q # r' \<Rightarrow>
                           if q = CHR ''?'' then 1 + length (takeWhile url_char r') else 0))))"

text \<open>\<^verbatim>\<open>(https?://[^\s"'<>`]+\.(?:mp4|webm|ogg|mov|mkv|ts)(?:\?[^\s"'<>`]*)?)\<close>\<close>

definition video_pattern :: "string \<Rightarrow> (nat \<times> string) option" where
  "video_pattern s =
     (case http_prefix s of
        None \<Rightarrow> None
      | Some p \<Rightarrow>
          (case backtrack video_tail (drop p s) (length (takeWhile url_char (drop p s))) of
             None \<Rightarrow> None
           | Some (j, t) \<Rightarrow> Some (p + j + t, take (p + j + t) s)))"

text \<open>\<^verbatim>\<open>(.*?)["']\<close>: the shortest run of characters other than the newline that a quote
  follows. The result counts the closing quote.\<close>

definition is_quote :: "char \<Rightarrow> bool" where
  "is_quote c = (c = CHR 0x22 \<or> c = CHR 0x27)"

fun lazy_until_quote :: "string \<Rightarrow> (nat \<times> string) option" where
  "lazy_until_quote [] = None"
| "lazy_until_quote (c # cs) =
     (if is_quote c then Some (1, [])
      else if c = CHR 0x0A then None
      else (case lazy_until_quote cs of
              None \<Rightarrow> None
            | Some (n, g) \<Rightarrow> Some (Suc n, c # g)))"

text \<open>\<^verbatim>\<open>src\s*=\s*["'](.*?)["']\<close>\<close>

definition src_attr :: "string \<Rightarrow> (nat \<times> string) option" where
  "src_attr s =
     (if \<not> imatch ''src'' s then None
      else (case dropWhile isspace (drop 3 s) of
              [] \<Rightarrow> None
            | c # s2 \<Rightarrow>
                if c \<noteq> CHR ''='' then None
                else (case dropWhile isspace s2 of
                        [] \<Rightarrow> None
                      | q # s4 \<Rightarrow>
                          if \<not> is_quote q then None
                          else (case lazy_until_quote s4 of
                                  None \<Rightarrow> None
                                | Some (n, g) \<Rightarrow> Some (length s - length s4 + n, g)))))"

text \<open>\<^verbatim>\<open><TAG[^>]+src\s*=\s*["'](.*?)["']\<close> for a tag opener such as \<^verbatim>\<open><iframe\<close>.\<close>

definition tag_src_pattern :: "string \<Rightarrow> string \<Rightarrow> (nat \<times> string) option" where
  "tag_src_pattern tag s =
     (if \<not> imatch tag s then None
      else (case backtrack src_attr (drop (length tag) s)
                   (length (takeWhile (\<lambda>c. c \<noteq> CHR ''>'') (drop (length tag) s))) of
              None \<Rightarrow> None
            | Some (j, n, g) \<Rightarrow> Some (length tag + j + n, g)))"

definition iframe_pattern :: "string \<Rightarrow> (nat \<times> string) option" where
  "iframe_pattern = tag_src_pattern ''<iframe''"

definition js_pattern :: "string \<Rightarrow> (nat \<times> string) option" where
  "js_pattern = tag_src_pattern ''<script''"

text \<open>\<^verbatim>\<open>pattern.findall(text)\<close>: the groups of the matches found from the left, each search
  starting where the last match ended, or one character on when there was none.\<close>

function findall :: "(string \<Rightarrow> (nat \<times> string) option) \<Rightarrow> string \<Rightarrow> string list" where
  "findall pat [] = []"
| "findall pat (c # cs) =
     (case pat (c # cs) of
        Some (n, g) \<Rightarrow> g # findall pat (drop (n - 1) cs)
      | None \<Rightarrow> findall pat cs)"
  by pat_completeness auto
termination
  by (relation "measure (\<lambda>(pat, s). length s)") auto

section \<open>Resolving a reference against a base (urllib.parse.urljoin)\<close>

text \<open>
  The program resolves every URL it finds with \<^verbatim>\<open>urljoin\<close> of the standard library.
  The definitions below follow that function and the ones it calls, for \<^verbatim>\<open>str\<close>
  arguments. Two checks of the library on a network location need tables that are not
  modelled (the syntax of IP literals in brackets and Unicode normalisation); the
  environment answers them. A failed check raises \<^verbatim>\<open>ValueError\<close>.
\<close>

definition scheme_chars :: string where
  "scheme_chars = ascii_lowercase @ ascii_uppercase @ ''0123456789+-.''"

definition uses_relative :: "string list" where
  "uses_relative =
     ['''', ''ftp'', ''http'', ''gopher'', ''nntp'', ''imap'', ''wais'', ''file'', ''https'',
      ''shttp'', ''mms'', ''prospero'', ''rtsp'', ''rtsps'', ''rtspu'', ''sftp'', ''svn'',
      ''svn+ssh'', ''ws'', ''wss'']"

definition uses_netloc :: "string list" where
  "uses_netloc =
     ['''', ''ftp'', ''http'', ''gopher'', ''nntp'', ''telnet'', ''imap'', ''wais'', ''file'',
      ''mms'', ''https'', ''shttp'', ''snews'', ''prospero'', ''rtsp'', ''rtsps'', ''rtspu'',
      ''rsync'', ''svn'', ''svn+ssh'', ''sftp'', ''nfs'', ''git'', ''git+ssh'', ''ws'', ''wss'']"

definition uses_params :: "string list" where
  "uses_params =
     ['''', ''ftp'', ''hdl'', ''prospero'', ''http'', ''imap'', ''https'', ''shttp'', ''rtsp'',
      ''rtsps'', ''rtspu'', ''sip'', ''sips'', ''mms'', ''sftp'', ''tel'']"

text \<open>The characters stripped from the left of a URL (code points 0 to 32), and the
  characters removed wherever they stand (tab, carriage return, newline).\<close>

definition c0_control_or_space :: "char \<Rightarrow> bool" where
  "c0_control_or_space c = ((of_char c :: nat) \<le> 32)"

definition unsafe_url_byte :: "char \<Rightarrow> bool" where
  "unsafe_url_byte c = (c \<in> set [CHR 0x09, CHR 0x0D, CHR 0x0A])"

definition clean_url :: "string \<Rightarrow> string" where
  "clean_url u = filter (\<lambda>c. \<not> unsafe_url_byte c) (dropWhile c0_control_or_space u)"

definition clean_scheme :: "string \<Rightarrow> string" where
  "clean_scheme s =
     filter (\<lambda>c. \<not> unsafe_url_byte c)
       (rev (dropWhile c0_control_or_space (rev (dropWhile c0_control_or_space s))))"

definition isascii_alpha :: "char \<Rightarrow> bool" where
  "isascii_alpha c = (c \<in> set ascii_lowercase \<or> c \<in> set ascii_uppercase)"

text \<open>The scheme of a cleaned URL: the text before the first colon, in lower case, when
  it starts with a letter and consists of scheme characters; otherwise the default.\<close>

definition split_scheme :: "string \<Rightarrow> string \<Rightarrow> string \<times> string" where
  "split_scheme u dflt =
     (case find_char CHR '':'' u of
        None \<Rightarrow> (dflt, u)
      | Some i \<Rightarrow>
          if 0 < i \<and> (case u of [] \<Rightarrow> False | c # cs \<Rightarrow> isascii_alpha c) \<and>
             list_all (\<lambda>c. c \<in> set scheme_chars) (take i u)
          then (lower (take i u), drop (Suc i) u)
          else (dflt, u))"

text \<open>\<^verbatim>\<open>_splitnetloc(url, 2)\<close>: the network location runs from after the two slashes to
  the first of slash, question mark and hash.\<close>

definition splitnetloc :: "string \<Rightarrow> string \<times> string" where
  "splitnetloc u =
     (takeWhile (\<lambda>c. c \<notin> set ''/?#'') (drop 2 u), dropWhile (\<lambda>c. c \<notin> set ''/?#'') (drop 2 u))"

text \<open>\<^verbatim>\<open>s.split(c, 1)\<close> when \<open>c\<close> occurs in \<open>s\<close>, and \<open>(s, '')\<close> otherwise.\<close>

definition split_first :: "char \<Rightarrow> string \<Rightarrow> string \<times> string" where
  "split_first c s = (takeWhile (\<lambda>x. x \<noteq> c) s, drop 1 (dropWhile (\<lambda>x. x \<noteq> c) s))"

definition netloc_check :: "env \<Rightarrow> string \<Rightarrow> exn option" where
  "netloc_check e netloc =
     (if (CHR ''['' \<in> set netloc \<and> CHR '']'' \<notin> set netloc) \<or>
         (CHR '']'' \<in> set netloc \<and> CHR ''['' \<notin> set netloc)
      then Some (ValueError ''Invalid IPv6 URL'')
      else if CHR ''['' \<in> set netloc \<and> CHR '']'' \<in> set netloc \<and>
         \<not> check_bracketed_host e
             (takeWhile (\<lambda>c. c \<noteq> CHR '']'') (drop 1 (dropWhile (\<lambda>c. c \<noteq> CHR ''['') netloc)))
      then Some (ValueError ''invalid bracketed host'')
      else if netloc \<noteq> [] \<and> \<not> list_all (\<lambda>c. (of_char c :: nat) < 128) netloc \<and>
         \<not> checknetloc e netloc
      then Some (ValueError ''netloc contains invalid characters under NFKC normalization'')
      else None)"

type_synonym split_result = "string \<times> string \<times> string \<times> string \<times> string"

type_synonym parse_result = "string \<times> string \<times> string \<times> string \<times> string \<times> string"

text \<open>\<^verbatim>\<open>urlsplit(url, scheme)\<close>: scheme, network location, path, query and fragment.\<close>

definition urlsplit :: "env \<Rightarrow> string \<Rightarrow> string \<Rightarrow> exn + split_result" where
  "urlsplit e u dflt =
     (let (scheme, u2) = split_scheme (clean_url u) (clean_scheme dflt);
          (netloc, u3) = (if take 2 u2 = ''//'' then splitnetloc u2 else ([], u2));
          (u4, fragment) = split_first CHR ''#'' u3;
          (u5, query) = split_first CHR ''?'' u4
      in case netloc_check e netloc of
           Some ex \<Rightarrow> Inl ex
         | None \<Rightarrow> Inr (scheme, netloc, u5, query, fragment))"

text \<open>\<^verbatim>\<open>_splitparams\<close>: the parameters follow the first semicolon of the last path
  segment.\<close>

definition splitparams :: "string \<Rightarrow> string \<times> string" where
  "splitparams u =
     (case rfind_char CHR ''/'' u of
        Some r \<Rightarrow>
          (case find_char CHR '';'' (drop r u) of
             None \<Rightarrow> (u, [])
           | Some k \<Rightarrow> (take (r + k) u, drop (Suc (r + k)) u))
      | None \<Rightarrow>
          (case find_char CHR '';'' u of
             Some i \<Rightarrow> (take i u, drop (Suc i) u)
           | None \<Rightarrow> (butlast u, u)))"

definition urlparse :: "env \<Rightarrow> string \<Rightarrow> string \<Rightarrow> exn + parse_result" where
  "urlparse e u dflt =
     (case urlsplit e u dflt of
        Inl ex \<Rightarrow> Inl ex
      | Inr (scheme, netloc, path, query, fragment) \<Rightarrow>
          if scheme \<in> set uses_params \<and> CHR '';'' \<in> set path
          then Inr (scheme, netloc, fst (splitparams path), snd (splitparams path), query, fragment)
          else Inr (scheme, netloc, path, [], query, fragment))"

definition urlunsplit :: "split_result \<Rightarrow> string" where
  "urlunsplit r =
     (case r of (scheme, netloc, path, query, fragment) \<Rightarrow>
        (let u1 = (if netloc \<noteq> [] \<or> (scheme \<noteq> [] \<and> scheme \<in> set uses_netloc) \<or>
                      take 2 path = ''//''
                   then ''//'' @ netloc @
                          (if path \<noteq> [] \<and> take 1 path \<noteq> ''/'' then ''/'' @ path else path)
                   else path);
             u2 = (if scheme \<noteq> [] then scheme @ '':'' @ u1 else u1);
             u3 = (if query \<noteq> [] then u2 @ ''?'' @ query else u2)
         in if fragment \<noteq> [] then u3 @ ''#'' @ fragment else u3))"

definition urlunparse :: "parse_result \<Rightarrow> string" where
  "urlunparse r =
     (case r of (scheme, netloc, path, params, query, fragment) \<Rightarrow>
        urlunsplit
          (scheme, netloc, (if params \<noteq> [] then path @ '';'' @ params else path), query, fragment))"

text \<open>The loop of \<^verbatim>\<open>urljoin\<close> over the path segments: two dots drop the last segment
  kept so far (none when there is none), one dot is skipped.\<close>

fun resolve_path :: "string list \<Rightarrow> string list \<Rightarrow> string list" where
  "resolve_path [] resolved = resolved"
| "resolve_path (seg # segs) resolved =
     (if seg = ''..'' then resolve_path segs (butlast resolved)
      else if seg = ''.'' then resolve_path segs resolved
      else resolve_path segs (resolved @ [seg]))"

text \<open>The segments \<^verbatim>\<open>urljoin\<close> resolves: those of the reference when its path starts with
  a slash, otherwise those of the base without its last one, followed by those of the
  reference, with the empty segments between the first and the last removed.\<close>

definition join_segments :: "string \<Rightarrow> string \<Rightarrow> string list" where
  "join_segments bpath path =
     (let base_parts = (case rev (split CHR ''/'' bpath) of
                          [] \<Rightarrow> []
                        | l # rest \<Rightarrow> if l \<noteq> [] then rev rest else rev (l # rest))
      in if take 1 path = ''/'' then split CHR ''/'' path
         else (case base_parts @ split CHR ''/'' path of
                 [] \<Rightarrow> []
               | [s] \<Rightarrow> [s]
               | s # t # ts \<Rightarrow> s # filter (\<lambda>x. x \<noteq> []) (butlast (t # ts)) @ [last (t # ts)]))"

definition urljoin :: "env \<Rightarrow> string \<Rightarrow> string \<Rightarrow> exn + string" where
  "urljoin e base u =
     (if base = [] then Inr u
      else if u = [] then Inr base
      else
        (case urlparse e base [] of
           Inl ex \<Rightarrow> Inl ex
         | Inr (bscheme, bnetloc, bpath, bparams, bquery, bfragment) \<Rightarrow>
            (case urlparse e u bscheme of
               Inl ex \<Rightarrow> Inl ex
             | Inr (scheme, netloc, path, params, query, fragment) \<Rightarrow>
                if scheme \<noteq> bscheme \<or> scheme \<notin> set uses_relative then Inr u
                else if scheme \<in> set uses_netloc \<and> netloc \<noteq> []
                then Inr (urlunparse (scheme, netloc, path, params, query, fragment))
                else
                  (let netloc' = (if scheme \<in> set uses_netloc then bnetloc else netloc)
                   in if path = [] \<and> params = []
                      then Inr (urlunparse (scheme, netloc', bpath, bparams,
                                  (if query = [] then bquery else query), fragment))
                      else
                        (let segments = join_segments bpath path;
                             resolved = resolve_path segments [];
                             resolved_path =
                               (case rev segments of
                                  [] \<Rightarrow> resolved
                                | l # rest \<Rightarrow>
                                    if l = ''.'' \<or> l = ''..'' then resolved @ [[]]
                                    else resolved);
                             joined = join ''/'' resolved_path
                         in Inr (urlunparse (scheme, netloc',
                                   (if joined = [] then ''/'' else joined),
                                   params, query, fragment)))))))"

text \<open>A URL is absolute when it has a scheme: the scheme the library reads off it is not
  empty.\<close>

definition is_absolute :: "string \<Rightarrow> bool" where
  "is_absolute u = (fst (split_scheme (clean_url u) []) \<noteq> [])"

text \<open>A well-formed scheme: not empty, starting with a letter, of scheme characters.\<close>

definition wf_scheme :: "string \<Rightarrow> bool" where
  "wf_scheme s =
     ((case s of [] \<Rightarrow> False | c # cs \<Rightarrow> isascii_alpha c) \<and>
      list_all (\<lambda>c. c \<in> set scheme_chars) s)"

section \<open>The stream endpoint (get\_streaming\_links)\<close>

text \<open>A list of results of which the first exception, if any, is raised.\<close>

fun sequence :: "(exn + 'a) list \<Rightarrow> exn + 'a list" where
  "sequence [] = Inr []"
| "sequence (x # xs) =
     (case x of
        Inl ex \<Rightarrow> Inl ex
      | Inr v \<Rightarrow> (case sequence xs of Inl ex \<Rightarrow> Inl ex | Inr vs \<Rightarrow> Inr (v # vs)))"

definition find_urls_in_text :: "env \<Rightarrow> string \<Rightarrow> string \<Rightarrow> exn + string list" where
  "find_urls_in_text e text base_url =
     (let found_urls = findall m3u8_pattern text @ findall video_pattern text
      in case sequence (map (urljoin e base_url) found_urls) of
           Inl ex \<Rightarrow> Inl ex
         | Inr absolute_urls \<Rightarrow> Inr (list_set (hash_order e) absolute_urls))"

definition find_js_file_urls :: "env \<Rightarrow> string \<Rightarrow> string \<Rightarrow> exn + string list" where
  "find_js_file_urls e html_content base_url =
     (let js_urls = findall js_pattern html_content
      in case sequence (map (urljoin e base_url)
                 (filter (\<lambda>u. endswith u ''.js'' \<or> is_in ''javascript'' u) js_urls)) of
           Inl ex \<Rightarrow> Inl ex
         | Inr absolute_js_urls \<Rightarrow> Inr (list_set (hash_order e) absolute_js_urls))"

text \<open>\<^verbatim>\<open>scan_js_file\<close>: every exception, of the request or of the scan, gives the empty
  list.\<close>

definition scan_js_file :: "env \<Rightarrow> string \<Rightarrow> string list" where
  "scan_js_file e js_url =
     (case local_get e js_url of
        None \<Rightarrow> []
      | Some text \<Rightarrow>
          (case find_urls_in_text e text js_url of
             Inl ex \<Rightarrow> []
           | Inr urls \<Rightarrow> urls))"

text \<open>The three list comprehensions that filter and classify the streams.\<close>

definition is_asset :: "string \<Rightarrow> bool" where
  "is_asset u =
     list_ex (\<lambda>ext. is_in ext (lower u))
       [''.js'', ''.css'', ''.png'', ''.jpg'', ''.gif'', ''.svg'', ''.ico'']"

definition filtered_streams :: "string list \<Rightarrow> string list" where
  "filtered_streams all_streams = filter (\<lambda>u. \<not> is_asset u) all_streams"

definition mentions_m3u8 :: "string \<Rightarrow> bool" where
  "mentions_m3u8 u = is_in ''.m3u8'' (lower u)"

definition mentions_video :: "string \<Rightarrow> bool" where
  "mentions_video u =
     list_ex (\<lambda>ext. is_in ext (lower u)) [''.mp4'', ''.webm'', ''.mov'', ''.ts'']"

definition m3u8_of :: "string list \<Rightarrow> string list" where
  "m3u8_of streams = filter mentions_m3u8 streams"

definition video_of :: "string list \<Rightarrow> string list" where
  "video_of streams = filter mentions_video streams"

text \<open>The body of the \<^verbatim>\<open>try\<close> block of the endpoint after the page is fetched: the scripts
  are scanned by futures that never raise, and their results are appended in the order
  of completion; an exception of \<^verbatim>\<open>urljoin\<close> in the main thread leaves the block.\<close>

definition extract_streams :: "env \<Rightarrow> string \<Rightarrow> string \<Rightarrow> string \<Rightarrow> exn + stream_result" where
  "extract_streams e url_path source_url html_content =
     (case find_urls_in_text e html_content source_url of
        Inl ex \<Rightarrow> Inl ex
      | Inr html_streams \<Rightarrow>
         (case find_js_file_urls e html_content source_url of
            Inl ex \<Rightarrow> Inl ex
          | Inr js_file_urls \<Rightarrow>
             (let js_streams =
                    concat (permute (js_completion e)
                              (map (scan_js_file e) (take 5 js_file_urls)))
              in case sequence (map (urljoin e source_url)
                          (findall iframe_pattern html_content)) of
                   Inl ex \<Rightarrow> Inl ex
                 | Inr joined \<Rightarrow>
                    (let found_iframes = list_set (hash_order e) joined;
                         all_streams = list_set (hash_order e) (html_streams @ js_streams);
                         streams = filtered_streams all_streams
                     in Inr
                          \<lparr>episode_url = url_path,
                           m3u8_links = m3u8_of streams,
                           video_links = video_of streams,
                           iframes = found_iframes,
                           total_streams =
                             length (m3u8_of streams) + length (video_of streams) +
                             length found_iframes\<rparr>))))"

text \<open>The endpoint. The page is fetched without the cache, so the fetcher returns a page
  body or raises.\<close>

definition source_url_of :: "string \<Rightarrow> string" where
  "source_url_of url_path =
     add_base_url
       (if startswith url_path ''movies/'' \<or> startswith url_path ''episode/''
        then url_path else ''episode/'' @ url_path)"

definition get_streaming_links :: "env \<Rightarrow> string \<Rightarrow> world \<Rightarrow> response \<times> world" where
  "get_streaming_links e url_path w =
     (let cache_key = ''stream_'' @ url_path;
          cached_result = fst (cache_get e cache_key w);
          w1 = snd (cache_get e cache_key w)
      in case (if hit cached_result then cached_result else None) of
           Some v \<Rightarrow> (Ok200 v, w1)
         | None \<Rightarrow>
            (case fetch_with_cache e (source_url_of url_path) False w1 of
               (Inl ex, w2) \<Rightarrow> (Err500 (str_exn ex), w2)
             | (Inr (AnimeInfo d), w2) \<Rightarrow> (Err500 ''markup'', w2)
             | (Inr (Streams r), w2) \<Rightarrow> (Err500 ''markup'', w2)
             | (Inr (Opaque b), w2) \<Rightarrow> (Err500 ''markup'', w2)
             | (Inr (Body html_content), w2) \<Rightarrow>
                (case extract_streams e url_path (source_url_of url_path) html_content of
                   Inl ex \<Rightarrow> (Err500 (str_exn ex), w2)
                 | Inr result \<Rightarrow>
                     (Ok200 (Streams result), cache_set e cache_key (Streams result) w2))))"

text \<open>The page a stream request works on, as for the detail endpoint.\<close>

definition fetched_stream_page :: "env \<Rightarrow> string \<Rightarrow> world \<Rightarrow> string option" where
  "fetched_stream_page e url_path w =
     (if hit (fst (cache_get e (''stream_'' @ url_path) w)) then None
      else (case fst (fetch_with_cache e (source_url_of url_path) False
                        (snd (cache_get e (''stream_'' @ url_path) w))) of
              Inr (Body html_content) \<Rightarrow> Some html_content
            | _ \<Rightarrow> None))"

text \<open>A cached value that is a stream result has the sum of the three lengths as its
  total.\<close>

definition sums_streams :: "cached_value \<Rightarrow> bool" where
  "sums_streams v =
     (case v of
        Streams r \<Rightarrow>
          total_streams r = length (m3u8_links r) + length (video_links r) + length (iframes r)
      | _ \<Rightarrow> True)"

text \<open>A cached value that is a stream result has absolute URLs only, and its two lists
  of streams share exactly the URLs that mention both a playlist and a video file.\<close>

definition stream_urls_ok :: "cached_value \<Rightarrow> bool" where
  "stream_urls_ok v =
     (case v of
        Streams r \<Rightarrow>
          (\<forall>u \<in> set (m3u8_links r) \<union> set (video_links r) \<union> set (iframes r). is_absolute u) \<and>
          set (m3u8_links r) \<inter> set (video_links r) =
            {u \<in> set (m3u8_links r) \<union> set (video_links r). mentions_m3u8 u \<and> mentions_video u}
      | _ \<Rightarrow> True)"

text \<open>The text of the classification example: the three URLs in a row, delimited by
  characters that cannot be part of a URL (white space, quotes, angle brackets, the
  backtick). The delimiters between two URLs are not empty.\<close>

definition delimiters :: "string \<Rightarrow> bool" where
  "delimiters s = list_all (\<lambda>c. \<not> url_char c) s"

definition three_urls_text :: "string \<Rightarrow> string \<Rightarrow> string \<Rightarrow> string \<Rightarrow> string" where
  "three_urls_text s0 s1 s2 s3 =
     s0 @ ''https://x.test/a.m3u8'' @ s1 @ ''https://x.test/b.mp4'' @ s2 @
     ''https://x.test/c.css'' @ s3"

section \<open>Tasks that fail\<close>

text \<open>The environment in which the task of season button \<open>i\<close> ends in \<open>outcome\<close> whatever
  its arguments are, and the one in which the request for the script \<open>js_url\<close> ends in
  \<open>outcome\<close>: the text of the script, or nothing when the request fails. Everything else
  in the environment stays as it is.\<close>

definition season_task_ends :: "env \<Rightarrow> nat \<Rightarrow> ajax_outcome \<Rightarrow> env" where
  "season_task_ends e i outcome =
     e\<lparr>ajax_get := (ajax_get e)(i := \<lambda>post_id season_num. outcome)\<rparr>"

definition script_request_ends :: "env \<Rightarrow> string \<Rightarrow> string option \<Rightarrow> env" where
  "script_request_ends e js_url outcome = e\<lparr>local_get := (local_get e)(js_url := outcome)\<rparr>"

section \<open>A concrete environment\<close>

text \<open>An environment for evaluating the model on concrete inputs: the clock advances by
  one second per reading from 1000, the fingerprint is the URL itself, every GET of the
  shared session returns the page \<open>page\<close>, the parser accepts every page and finds
  nothing, no script can be fetched, and sets iterate in insertion order.\<close>

definition empty_soup :: soup where
  "empty_soup = \<lparr>h1 = None, og_image_content = None, lang_tags = [], season_buttons = []\<rparr>"

definition plain_env :: "string \<Rightarrow> env" where
  "plain_env page =
     \<lparr>clock = (\<lambda>n. 1000 + real n),
      md5_hexdigest = (\<lambda>u. u),
      session_get = (\<lambda>n u. Page page),
      parse_page = (\<lambda>html. Inr empty_soup),
      ajax_get = (\<lambda>i post season. AjaxItems []),
      local_get = (\<lambda>u. None),
      season_completion = [],
      js_completion = [],
      hash_order = (\<lambda>xs. []),
      check_bracketed_host = (\<lambda>h. True),
      checknetloc = (\<lambda>n. True)\<rparr>"

definition new_world :: world where
  "new_world = \<lparr>the_cache = CacheManager_init 300, ticks = 0, gets = []\<rparr>"

text \<open>An environment for the detail endpoint: the page has the season buttons \<open>buttons\<close>,
  and the task of a button with season number \<open>s\<close> returns one list item that links to
  \<open>/ep-s\<close>.\<close>

definition button :: "string \<Rightarrow> string \<Rightarrow> season_button" where
  "button post season = \<lparr>data_post = Some post, data_season = Some season\<rparr>"

definition bare_button :: season_button where
  "bare_button = \<lparr>data_post = None, data_season = None\<rparr>"

definition link_item :: "string \<Rightarrow> li" where
  "link_item href =
     \<lparr>lnk_blk_href = Some href, num_epi = None, entry_title = None, thumbnail_img = None\<rparr>"

definition detail_env :: "season_button list \<Rightarrow> env" where
  "detail_env buttons =
     (plain_env ''<html>'')
       \<lparr>parse_page := (\<lambda>html. Inr (empty_soup\<lparr>season_buttons := buttons\<rparr>)),
        ajax_get := (\<lambda>i post season.
          case season of None \<Rightarrow> AjaxItems [] | Some s \<Rightarrow> AjaxItems [link_item (''/ep-'' @ s)])\<rparr>"

text \<open>An environment whose parser rejects the page it is given, as the parser of the
  standard library rejects a marked section with an unknown keyword; the text of the
  exception is shortened.\<close>

definition rejecting_env :: "string \<Rightarrow> env" where
  "rejecting_env page =
     (plain_env page)\<lparr>parse_page := (\<lambda>html. Inl (OtherError ''unknown status keyword''))\<rparr>"

section \<open>Properties of the TTL cache\<close>

lemma CacheManager_get_other_key:
  "k' \<noteq> k \<Longrightarrow> cache (snd (CacheManager_get c now k')) k = cache c k"
  by (simp add: CacheManager_get_def split: option.splits prod.splits)

lemma CacheManager_set_other_key:
  "k' \<noteq> k \<Longrightarrow> cache (CacheManager_set c now k' v) k = cache c k"
  by (simp add: CacheManager_set_def)

lemma CacheManager_get_ttl [simp]: "ttl (snd (CacheManager_get c now k)) = ttl c"
  by (simp add: CacheManager_get_def split: option.splits prod.splits)

lemma CacheManager_set_ttl [simp]: "ttl (CacheManager_set c now k v) = ttl c"
  by (simp add: CacheManager_set_def)

text \<open>
  Claim C1. After \<^verbatim>\<open>set(k, v)\<close> at time \<open>t0\<close>, a \<^verbatim>\<open>get(k)\<close> at time \<open>t1\<close> returns \<open>v\<close>
  when fewer than TTL seconds have elapsed; once TTL or more seconds have elapsed it
  returns absent and the entry is gone from the dictionary in the state the same step
  leaves behind. Whatever the state, a \<^verbatim>\<open>get\<close> that returns a value returns the value of
  an entry that is stored under the key and is not expired at the time of the read.
\<close>

theorem ttl_cache_set_get:
  "(t1 - t0 < ttl c \<longrightarrow>
      fst (CacheManager_get (CacheManager_set c t0 k v) t1 k) = Some v) \<and>
   (ttl c \<le> t1 - t0 \<longrightarrow>
      fst (CacheManager_get (CacheManager_set c t0 k v) t1 k) = None \<and>
      cache (snd (CacheManager_get (CacheManager_set c t0 k v) t1 k)) k = None) \<and>
   (\<forall>s now key x. fst (CacheManager_get s now key) = Some x \<longrightarrow>
      (\<exists>ts. cache s key = Some (x, ts) \<and> now - ts < ttl s))"
  by (auto simp: CacheManager_get_def CacheManager_set_def split: option.splits if_splits)

theorem ttl_cache_set_get_witness:
  "fst (CacheManager_get (CacheManager_set (CacheManager_init 300) 1000 ''k'' (7::nat)) 1299 ''k'')
     = Some 7 \<and>
   fst (CacheManager_get (CacheManager_set (CacheManager_init 300) 1000 ''k'' (7::nat)) 1300 ''k'')
     = None \<and>
   cache (snd (CacheManager_get (CacheManager_set (CacheManager_init 300) 1000 ''k'' (7::nat))
     1300 ''k'')) ''k'' = None"
proof -
  have fresh: "(1299::real) - 1000 < ttl (CacheManager_init 300 :: nat CacheManager)"
    by (simp add: CacheManager_init_def)
  have stale: "ttl (CacheManager_init 300 :: nat CacheManager) \<le> (1300::real) - 1000"
    by (simp add: CacheManager_init_def)
  from ttl_cache_set_get [of 1299 1000 "CacheManager_init 300" "''k''" "7::nat"] fresh
  have hit: "fst (CacheManager_get (CacheManager_set (CacheManager_init 300) 1000 ''k'' (7::nat))
      1299 ''k'') = Some 7"
    by blast
  from ttl_cache_set_get [of 1300 1000 "CacheManager_init 300" "''k''" "7::nat"] stale
  have miss: "fst (CacheManager_get (CacheManager_set (CacheManager_init 300) 1000 ''k'' (7::nat))
      1300 ''k'') = None \<and>
    cache (snd (CacheManager_get (CacheManager_set (CacheManager_init 300) 1000 ''k'' (7::nat))
      1300 ''k'')) ''k'' = None"
    by blast
  from hit miss show ?thesis by blast
qed


section \<open>Orders of iteration\<close>

lemma mset_permute [simp]: "mset (permute order xs) = mset xs"
proof (cases "sort order = [0..<length xs]")
  case True
  then have "mset order = mset [0..<length xs]"
    by (metis mset_sort)
  then have "mset (map (\<lambda>i. xs ! i) order) = mset (map (\<lambda>i. xs ! i) [0..<length xs])"
    by (metis mset_map)
  then show ?thesis
    using True by (simp add: permute_def map_nth)
next
  case False
  then show ?thesis by (simp add: permute_def)
qed

lemma set_permute [simp]: "set (permute order xs) = set xs"
  by (metis mset_permute mset_eq_setD)

lemma length_permute [simp]: "length (permute order xs) = length xs"
  by (metis mset_permute mset_eq_length)

lemma distinct_permute [simp]: "distinct (permute order xs) = distinct xs"
  by (metis mset_permute mset_eq_imp_distinct_iff)

lemma sort_upt_set: "sort order = [0..<n] \<Longrightarrow> set order = {0..<n}"
  by (metis set_sort set_upt)

lemma permute_map: "permute order (map f xs) = map f (permute order xs)"
  by (auto simp: permute_def dest: sort_upt_set)

lemma permute_Nil [simp]: "permute order [] = []"
  using length_permute [of order "[]"] by (simp del: length_permute)

lemma set_list_set [simp]: "set (list_set h xs) = set xs"
  by (simp add: list_set_def)

lemma distinct_list_set [simp]: "distinct (list_set h xs)"
  by (simp add: list_set_def)

section \<open>Properties of the content fetcher\<close>

lemma cache_get_fresh:
  assumes "cache (the_cache w) key = Some (v, ts)"
    and "clock e (ticks w) - ts < ttl (the_cache w)"
  shows "cache_get e key w = (Some v, w\<lparr>ticks := Suc (ticks w)\<rparr>)"
  using assms by (simp add: cache_get_def CacheManager_get_def)

text \<open>A cached fetch whose fingerprint has an unexpired, non-empty body in the cache
  returns that body and makes no network call: the log of GETs is unchanged.\<close>

lemma fetch_with_cache_hit:
  assumes "cache (the_cache w) (md5_hexdigest e u) = Some (Body b, ts)"
    and "clock e (ticks w) - ts < ttl (the_cache w)"
    and "b \<noteq> []"
  shows "fetch_with_cache e u True w = (Inr (Body b), w\<lparr>ticks := Suc (ticks w)\<rparr>)"
  using assms by (simp add: fetch_with_cache_def cache_get_fresh hit_def Let_def)

text \<open>With an empty body in the cache the test \<^verbatim>\<open>if cached_data:\<close> fails although the
  entry is present and unexpired, and the page is fetched again.\<close>

lemma fetch_with_cache_empty_hit:
  assumes "cache (the_cache w) (md5_hexdigest e u) = Some (Body [], ts)"
    and "clock e (ticks w) - ts < ttl (the_cache w)"
  shows "gets (snd (fetch_with_cache e u True w)) = gets w @ [u]"
  using assms
  by (simp add: fetch_with_cache_def cache_get_fresh hit_def fetch_network_def cache_set_def
      Let_def split: http_outcome.splits)

text \<open>
  Claim C5, evaluated where it fails. The upstream page of \<open>u\<close> is empty. The first cached
  fetch stores the empty body; the second one, one clock reading later and far inside
  the TTL of 300 seconds, finds the entry but fetches the page again: two GETs are
  logged, and the cache entry is still the unexpired empty body.
\<close>

theorem fetch_with_cache_empty_body_refetches:
  "gets (snd (fetch_with_cache (plain_env []) ''https://animesalt.cc/x'' True
      (snd (fetch_with_cache (plain_env []) ''https://animesalt.cc/x'' True new_world))))
     = [''https://animesalt.cc/x'', ''https://animesalt.cc/x''] \<and>
   cache (the_cache (snd (fetch_with_cache (plain_env []) ''https://animesalt.cc/x'' True
      new_world))) ''https://animesalt.cc/x'' = Some (Body [], 1000)"
  by (simp add: fetch_with_cache_def cache_get_def cache_set_def hit_def fetch_network_def
      plain_env_def new_world_def CacheManager_init_def CacheManager_get_def
      CacheManager_set_def Let_def)

section \<open>Lemmas about the detail endpoint\<close>

lemma collect_results_IndexError:
  "(r, i) \<in> set fs \<Longrightarrow> length res \<le> i \<Longrightarrow> collect_results fs res = Inl IndexError"
proof (induction fs arbitrary: res)
  case Nil
  then show ?case by simp
next
  case (Cons f fs)
  obtain r' i' where f: "f = (r', i')" by (cases f)
  show ?case
  proof (cases "i' < length res")
    case True
    with Cons.prems f have "(r, i) \<in> set fs" by auto
    then have "collect_results fs (res[i' := Some (result_or_empty r')]) = Inl IndexError"
      using Cons.IH Cons.prems(2) by simp
    with True f show ?thesis by simp
  next
    case False
    with f show ?thesis by simp
  qed
qed

lemma collect_results_slots:
  assumes "distinct (map snd fs)" and "\<forall>f \<in> set fs. snd f < length res"
  shows "\<exists>res'. collect_results fs res = Inr res' \<and> length res' = length res \<and>
           (\<forall>f \<in> set fs. res' ! snd f = Some (result_or_empty (fst f))) \<and>
           (\<forall>k. k \<notin> snd ` set fs \<longrightarrow> res' ! k = res ! k)"
  using assms
proof (induction fs arbitrary: res)
  case Nil
  then show ?case by simp
next
  case (Cons f fs)
  obtain r i where f: "f = (r, i)" by (cases f)
  let ?res = "res[i := Some (result_or_empty r)]"
  have i: "i < length res" and notin: "i \<notin> snd ` set fs"
    using Cons.prems f by auto
  have "distinct (map snd fs)" and "\<forall>g \<in> set fs. snd g < length ?res"
    using Cons.prems by auto
  from Cons.IH [OF this] obtain res' where
    res': "collect_results fs ?res = Inr res'" "length res' = length ?res"
      "\<forall>g \<in> set fs. res' ! snd g = Some (result_or_empty (fst g))"
      "\<forall>k. k \<notin> snd ` set fs \<longrightarrow> res' ! k = ?res ! k"
    by blast
  have "collect_results (f # fs) res = Inr res'"
    using f i res'(1) by simp
  moreover have "length res' = length res"
    using res'(2) by simp
  moreover have "res' ! snd f = Some (result_or_empty (fst f))"
    using res'(4) notin i f by simp
  moreover have "\<forall>k. k \<notin> snd ` set (f # fs) \<longrightarrow> res' ! k = res ! k"
    using res'(4) f by auto
  ultimately show ?case
    using res'(3) by auto
qed


lemma enumerate_nth: "enumerate 0 bs = map (\<lambda>k. (k, bs ! k)) [0..<length bs]"
  using enumerate_map_upt [of 0 "\<lambda>k. bs ! k" "length bs"] by (simp add: map_nth)

lemma future_to_season_eq:
  "future_to_season e bs =
     map (\<lambda>i. (get_episodes_for_season e i (data_post (bs ! i)) (data_season (bs ! i)), i))
       (filter (\<lambda>i. valid_button (bs ! i)) [0..<length bs])"
  by (simp add: future_to_season_def enumerate_nth filter_map comp_def)

lemma future_to_season_snd:
  "map snd (future_to_season e bs) = filter (\<lambda>i. valid_button (bs ! i)) [0..<length bs]"
  by (simp add: future_to_season_eq comp_def)

lemma distinct_future_to_season: "distinct (map snd (future_to_season e bs))"
  by (simp add: future_to_season_snd)

lemma length_future_to_season:
  "length (future_to_season e bs) = length (filter valid_button bs)"
proof -
  have "\<And>ps :: (nat \<times> season_button) list.
      filter valid_button (map snd ps) = map snd (filter (\<lambda>(i, b). valid_button b) ps)"
    by (simp add: filter_map comp_def case_prod_unfold)
  from this [of "enumerate 0 bs"]
  have "length (filter valid_button bs) =
      length (filter (\<lambda>(i, b). valid_button b) (enumerate 0 bs))"
    by (metis length_map map_snd_enumerate)
  then show ?thesis by (simp add: future_to_season_def)
qed

lemma future_to_season_all_valid:
  assumes "\<forall>b \<in> set bs. valid_button b"
  shows "future_to_season e bs =
     map (\<lambda>i. (get_episodes_for_season e i (data_post (bs ! i)) (data_season (bs ! i)), i))
       [0..<length bs]"
proof -
  have "filter (\<lambda>i. valid_button (bs ! i)) [0..<length bs] = [0..<length bs]"
    using assms by (simp add: filter_id_conv)
  then show ?thesis by (simp add: future_to_season_eq)
qed


lemma get_anime_info_fetched:
  assumes "parsed_detail_page e url_path w = Some page"
  shows "fst (get_anime_info e url_path w) =
     (if season_buttons page = [] then Err404 ''No season buttons found''
      else (case collect_results
                   (permute (season_completion e)
                      (future_to_season e (season_buttons page)))
                   (replicate (length (future_to_season e (season_buttons page)))
                      None) of
              Inl ex \<Rightarrow> Err500 (str_exn ex)
            | Inr season_results \<Rightarrow>
                Ok200 (AnimeInfo
                  \<lparr>anime_title = (case h1 page of Some t \<Rightarrow> strip t | None \<Rightarrow> ''N/A''),
                   anime_url = url_path,
                   anime_image_url =
                     (case og_image_content page of
                        Some c \<Rightarrow> if c \<noteq> [] then c else ''N/A''
                      | None \<Rightarrow> ''N/A''),
                   anime_languages = map strip (lang_tags page),
                   total_episodes =
                     length (List.map_filter episode_of_item (all_episode_items season_results)),
                   episodes =
                     List.map_filter episode_of_item (all_episode_items season_results)\<rparr>)))"
proof -
  let ?key = "''anime_info_'' @ url_path"
  from assms obtain html where fetched: "fetched_detail_page e url_path w = Some html"
    and parsed: "parse_page e html = Inr page"
    by (auto simp: parsed_detail_page_def split: option.splits sum.splits)
  from fetched have miss: "\<not> hit (fst (cache_get e ?key w))"
    by (simp add: fetched_detail_page_def split: if_splits)
  from fetched have body: "fst (fetch_with_cache e (add_base_url url_path) True
      (snd (cache_get e ?key w))) = Inr (Body html)"
    by (simp add: fetched_detail_page_def split: if_splits sum.splits cached_value.splits)
  obtain w2 where f: "fetch_with_cache e (add_base_url url_path) True
      (snd (cache_get e ?key w)) = (Inr (Body html), w2)"
    using body by (metis fst_conv surj_pair)
  show ?thesis
    using miss f parsed
    by (simp add: get_anime_info_def Let_def split: sum.splits)
qed

lemma get_anime_info_rejected:
  assumes "fetched_detail_page e url_path w = Some html" and "parse_page e html = Inl ex"
  shows "fst (get_anime_info e url_path w) = Err500 (str_exn ex)"
proof -
  let ?key = "''anime_info_'' @ url_path"
  from assms(1) have miss: "\<not> hit (fst (cache_get e ?key w))"
    by (simp add: fetched_detail_page_def split: if_splits)
  from assms(1) have body: "fst (fetch_with_cache e (add_base_url url_path) True
      (snd (cache_get e ?key w))) = Inr (Body html)"
    by (simp add: fetched_detail_page_def split: if_splits sum.splits cached_value.splits)
  obtain w2 where f: "fetch_with_cache e (add_base_url url_path) True
      (snd (cache_get e ?key w)) = (Inr (Body html), w2)"
    using body by (metis fst_conv surj_pair)
  show ?thesis
    using miss f assms(2)
    by (simp add: get_anime_info_def Let_def)
qed

lemma collect_results_all:
  assumes "mset fs = mset (map (\<lambda>i. (t i, i)) [0..<n])"
  shows "collect_results fs (replicate n None) = Inr (map (\<lambda>i. Some (result_or_empty (t i))) [0..<n])"
proof -
  have "set fs = set (map (\<lambda>i. (t i, i)) [0..<n])"
    using assms by (rule mset_eq_setD)
  then have set_fs: "set fs = (\<lambda>i. (t i, i)) ` {0..<n}"
    by simp
  have "map snd (map (\<lambda>i. (t i, i)) [0..<n]) = [0..<n]"
    by (simp add: comp_def)
  moreover have "mset (map snd fs) = mset (map snd (map (\<lambda>i. (t i, i)) [0..<n]))"
    using arg_cong [OF assms, of "image_mset snd"] by (simp only: mset_map)
  ultimately have "mset (map snd fs) = mset [0..<n]"
    by (simp only:)
  then have "distinct (map snd fs) = distinct [0..<n]"
    by (rule mset_eq_imp_distinct_iff)
  then have d: "distinct (map snd fs)"
    by simp
  have b: "\<forall>f \<in> set fs. snd f < length (replicate n (None :: li list option))"
    using set_fs by auto
  from collect_results_slots [OF d b] obtain res' where
    res': "collect_results fs (replicate n None) = Inr res'" "length res' = n"
      "\<forall>f \<in> set fs. res' ! snd f = Some (result_or_empty (fst f))"
    by auto
  have "res' = map (\<lambda>i. Some (result_or_empty (t i))) [0..<n]"
  proof (rule nth_equalityI)
    show "length res' = length (map (\<lambda>i. Some (result_or_empty (t i))) [0..<n])"
      using res'(2) by simp
  next
    fix i assume "i < length res'"
    then have i: "i < n" using res'(2) by simp
    then have "(t i, i) \<in> set fs" using set_fs by auto
    with res'(3) have "res' ! i = Some (result_or_empty (t i))" by force
    with i show "res' ! i = map (\<lambda>i. Some (result_or_empty (t i))) [0..<n] ! i" by simp
  qed
  with res'(1) show ?thesis by simp
qed

lemma all_episode_items_Some:
  "all_episode_items (map (\<lambda>i. Some (f i)) xs) = concat (map f xs)"
  by (simp add: all_episode_items_def comp_def)

lemma cache_get_env: "clock e' = clock e \<Longrightarrow> cache_get e' key w = cache_get e key w"
  by (simp add: cache_get_def split: option.splits)

lemma cache_set_env: "clock e' = clock e \<Longrightarrow> cache_set e' key v w = cache_set e key v w"
  by (simp add: cache_set_def)

lemma fetch_network_env:
  "session_get e' = session_get e \<Longrightarrow> fetch_network e' u w = fetch_network e u w"
  by (simp add: fetch_network_def)

lemma fetch_with_cache_env:
  assumes "clock e' = clock e" and "md5_hexdigest e' = md5_hexdigest e"
    and "session_get e' = session_get e"
  shows "fetch_with_cache e' u c w = fetch_with_cache e u c w"
  unfolding fetch_with_cache_def
  by (simp only: cache_get_env [OF assms(1)] cache_set_env [OF assms(1)]
      fetch_network_env [OF assms(3)] assms(2))

lemma fetched_detail_page_env:
  assumes "clock e' = clock e" and "md5_hexdigest e' = md5_hexdigest e"
    and "session_get e' = session_get e"
  shows "fetched_detail_page e' url_path w = fetched_detail_page e url_path w"
  unfolding fetched_detail_page_def
  by (simp only: cache_get_env [OF assms(1)] fetch_with_cache_env [OF assms])

lemma fetched_detail_page_completion [simp]:
  "fetched_detail_page (e\<lparr>season_completion := order\<rparr>) url_path w = fetched_detail_page e url_path w"
  by (rule fetched_detail_page_env) simp_all

lemma parsed_detail_page_completion [simp]:
  "parsed_detail_page (e\<lparr>season_completion := order\<rparr>) url_path w = parsed_detail_page e url_path w"
  by (simp add: parsed_detail_page_def split: option.splits)

lemma future_to_season_completion [simp]:
  "future_to_season (e\<lparr>season_completion := order\<rparr>) bs = future_to_season e bs"
  by (simp add: future_to_season_def get_episodes_for_season_def)


lemma cache_all_new_world: "cache_all P new_world"
  by (simp add: cache_all_def new_world_def CacheManager_init_def)

lemma cache_get_all:
  assumes "cache_all P w"
  shows "cache_all P (snd (cache_get e key w))"
    and "fst (cache_get e key w) = Some v \<Longrightarrow> P v"
  using assms
  by (fastforce simp: cache_all_def cache_get_def CacheManager_get_def
      split: option.splits if_splits)+

lemma cache_set_all:
  assumes "cache_all P w" and "P v"
  shows "cache_all P (cache_set e key v w)"
  using assms by (auto simp: cache_all_def cache_set_def CacheManager_set_def)

lemma fetch_network_cache [simp]: "the_cache (snd (fetch_network e u w)) = the_cache w"
  by (simp add: fetch_network_def split: http_outcome.splits)

lemma fetch_network_all:
  "cache_all P w \<Longrightarrow> cache_all P (snd (fetch_network e u w))"
  by (simp add: cache_all_def)

lemma fetch_with_cache_all:
  assumes "cache_all P w" and "\<And>s. P (Body s)"
  shows "cache_all P (snd (fetch_with_cache e u c w))"
proof (cases c)
  case False
  then show ?thesis
    using fetch_network_all [OF assms(1), of e u]
    by (auto simp: fetch_with_cache_def split: prod.splits sum.splits)
next
  case True
  let ?w1 = "snd (cache_get e (md5_hexdigest e u) w)"
  have w1: "cache_all P ?w1" using assms(1) by (rule cache_get_all)
  have net: "cache_all P (snd (fetch_network e u ?w1))"
    using w1 by (rule fetch_network_all)
  show ?thesis
    using True w1 net assms(2)
    by (auto simp: fetch_with_cache_def Let_def intro: cache_set_all
        split: prod.splits sum.splits option.splits)
qed

lemma get_anime_info_all:
  assumes "cache_all P w" and "\<And>s. P (Body s)"
    and "\<And>d. total_episodes d = length (episodes d) \<Longrightarrow> P (AnimeInfo d)"
  shows "cache_all P (snd (get_anime_info e url_path w))"
proof -
  let ?w1 = "snd (cache_get e (''anime_info_'' @ url_path) w)"
  have w1: "cache_all P ?w1" using assms(1) by (rule cache_get_all)
  have w2: "cache_all P (snd (fetch_with_cache e (add_base_url url_path) True ?w1))"
    using w1 assms(2) by (rule fetch_with_cache_all)
  show ?thesis
    using w1 w2 assms(3)
    by (auto simp: get_anime_info_def Let_def intro!: cache_set_all
        split: prod.splits sum.splits option.splits cached_value.splits)
qed

lemma get_anime_info_cached:
  assumes "hit (fst (cache_get e (''anime_info_'' @ url_path) w))"
  shows "\<exists>v. fst (cache_get e (''anime_info_'' @ url_path) w) = Some v \<and>
    fst (get_anime_info e url_path w) = Ok200 v"
  using assms
  by (auto simp: get_anime_info_def Let_def hit_def split: option.splits)

lemma get_anime_info_computed:
  assumes "\<not> hit (fst (cache_get e (''anime_info_'' @ url_path) w))"
    and "fst (get_anime_info e url_path w) = Ok200 (AnimeInfo d)"
  shows "total_episodes d = length (episodes d)"
  using assms
  by (auto simp: get_anime_info_def Let_def
      split: prod.splits sum.splits option.splits cached_value.splits if_splits)

lemma last_valid_slot_outside:
  assumes "i < j" and "j < length bs" and "\<not> valid_button (bs ! i)" and "valid_button (bs ! j)"
  shows "\<exists>k < length bs. valid_button (bs ! k) \<and> j \<le> k \<and>
    (\<forall>m < length bs. valid_button (bs ! m) \<longrightarrow> m \<le> k) \<and>
    length (filter valid_button bs) \<le> k"
proof -
  let ?V = "{k. k < length bs \<and> valid_button (bs ! k)}"
  have fin: "finite ?V" by simp
  have ne: "?V \<noteq> {}" using assms(2,4) by auto
  let ?K = "Max ?V"
  have K: "?K \<in> ?V" using fin ne by (rule Max_in)
  have jK: "j \<le> ?K" using fin assms(2,4) by (intro Max_ge) auto
  then have iK: "i < ?K" using assms(1) by simp
  have last: "\<forall>m < length bs. valid_button (bs ! m) \<longrightarrow> m \<le> ?K"
    using fin by (auto intro: Max_ge)
  have "?V \<subseteq> {0..<Suc ?K} - {i}"
    using fin assms(3) by (auto simp: less_Suc_eq_le)
  then have "card ?V \<le> card ({0..<Suc ?K} - {i})"
    by (intro card_mono) auto
  also have "\<dots> = ?K" using iK by simp
  finally have "length (filter valid_button bs) \<le> ?K"
    by (simp add: length_filter_conv_card)
  with K jK last show ?thesis by blast
qed

lemma collect_results_result_or_empty:
  "map (\<lambda>f. (result_or_empty (fst f), snd f)) fs = map (\<lambda>f. (result_or_empty (fst f), snd f)) gs \<Longrightarrow>
   collect_results fs res = collect_results gs res"
proof (induction fs arbitrary: gs res)
  case Nil
  then show ?case by simp
next
  case (Cons f fs)
  then obtain g gs' where gs: "gs = g # gs'" by (cases gs) auto
  obtain r i where f: "f = (r, i)" by (cases f)
  obtain r' i' where g: "g = (r', i')" by (cases g)
  from Cons.prems gs f g have eq: "result_or_empty r = result_or_empty r'" "i = i'"
    and rest: "map (\<lambda>f. (result_or_empty (fst f), snd f)) fs =
      map (\<lambda>f. (result_or_empty (fst f), snd f)) gs'"
    by auto
  show ?case
    using Cons.IH [OF rest] eq by (simp add: gs f g)
qed

lemma fetched_detail_page_detail_env:
  "fetched_detail_page (detail_env bs) ''series/x'' new_world = Some ''<html>''"
  by (simp add: fetched_detail_page_def detail_env_def plain_env_def new_world_def cache_get_def
      CacheManager_init_def hit_def fetch_with_cache_def fetch_network_def cache_set_def Let_def)

lemma parsed_detail_page_detail_env:
  "parsed_detail_page (detail_env bs) ''series/x'' new_world =
     Some (empty_soup\<lparr>season_buttons := bs\<rparr>)"
  by (simp add: parsed_detail_page_def fetched_detail_page_detail_env)
    (simp add: detail_env_def)

lemma fetched_detail_page_rejecting_env:
  "fetched_detail_page (rejecting_env page) ''series/x'' new_world = Some page"
  by (simp add: fetched_detail_page_def rejecting_env_def plain_env_def new_world_def cache_get_def
      CacheManager_init_def hit_def fetch_with_cache_def fetch_network_def cache_set_def Let_def)

lemma permute_single [simp]: "permute order [x] = [x]"
proof -
  have "length (permute order [x]) = 1" and "set (permute order [x]) = {x}"
    by simp_all
  then show ?thesis
    by (cases "permute order [x]") auto
qed

lemma detail_env_one_season:
  "\<exists>d. fst (get_anime_info (detail_env [button ''7'' ''1'']) ''series/x'' new_world) =
     Ok200 (AnimeInfo d) \<and> map episode_link (episodes d) = [''ep-1'']"
proof -
  have bs: "season_buttons (empty_soup\<lparr>season_buttons := [button ''7'' ''1'']\<rparr>) =
      [button ''7'' ''1'']"
    by simp
  have fs: "future_to_season (detail_env [button ''7'' ''1'']) [button ''7'' ''1''] =
      [(Inr [link_item ''/ep-1''], 0)]"
    by (simp add: future_to_season_def valid_button_def button_def nonempty_def
        get_episodes_for_season_def detail_env_def)
  have link: "List.map_filter episode_of_item [link_item ''/ep-1''] =
      [\<lparr>episode_number = ''N/A'', episode_title = ''N/A'', episode_link = ''ep-1'',
        episode_image_url = ''N/A''\<rparr>]"
    by (simp add: List.map_filter_def episode_of_item_def link_item_def startswith_def
        lstrip_def remove_base_url_def BASE_URL_def)
  show ?thesis
    unfolding get_anime_info_fetched [OF parsed_detail_page_detail_env] bs fs
    by (simp add: all_episode_items_def result_or_empty_def link del: map_filter_simps)
qed

text \<open>The slot of a valid button that follows an invalid one can still lie inside the
  list: with an invalid button followed by two valid ones the list has two slots, the
  second button writes slot 1 and only the third button, with slot 2, is outside.\<close>

lemma early_valid_slot_inside:
  "map snd (future_to_season e [bare_button, button ''7'' ''1'', button ''7'' ''2'']) = [1, 2] \<and>
   length (future_to_season e [bare_button, button ''7'' ''1'', button ''7'' ''2'']) = 2"
  by (simp add: future_to_season_def valid_button_def button_def bare_button_def nonempty_def)

subsection \<open>A season task that fails\<close>

text \<open>The endpoint reads the season tasks only through the list items that the loop over
  the futures stores, so two environments whose tasks store the same items give the
  same response.\<close>

lemma get_anime_info_env:
  assumes "clock e' = clock e" and "md5_hexdigest e' = md5_hexdigest e"
    and "session_get e' = session_get e" and "parse_page e' = parse_page e"
    and "\<And>bs. collect_results (permute (season_completion e') (future_to_season e' bs))
             (replicate (length (future_to_season e' bs)) None) =
           collect_results (permute (season_completion e) (future_to_season e bs))
             (replicate (length (future_to_season e bs)) None)"
  shows "get_anime_info e' url_path w = get_anime_info e url_path w"
  unfolding get_anime_info_def Let_def
  by (simp only: cache_get_env [OF assms(1)] cache_set_env [OF assms(1)]
      fetch_with_cache_env [OF assms(1-3)] assms(4,5))

lemma collect_results_permute_cong:
  assumes "map (\<lambda>f. (result_or_empty (fst f), snd f)) fs =
    map (\<lambda>f. (result_or_empty (fst f), snd f)) gs"
  shows "collect_results (permute order fs) (replicate (length fs) None) =
    collect_results (permute order gs) (replicate (length gs) None)"
proof -
  have len: "length fs = length gs"
    using arg_cong [OF assms, of length] by simp
  have "map (\<lambda>f. (result_or_empty (fst f), snd f)) (permute order fs) =
      permute order (map (\<lambda>f. (result_or_empty (fst f), snd f)) fs)"
    by (rule permute_map [symmetric])
  also have "\<dots> = permute order (map (\<lambda>f. (result_or_empty (fst f), snd f)) gs)"
    by (simp only: assms)
  also have "\<dots> = map (\<lambda>f. (result_or_empty (fst f), snd f)) (permute order gs)"
    by (rule permute_map)
  finally have "collect_results (permute order fs) (replicate (length gs) None) =
      collect_results (permute order gs) (replicate (length gs) None)"
    by (rule collect_results_result_or_empty)
  then show ?thesis by (simp only: len)
qed

lemma future_to_season_results_cong:
  assumes "\<And>k post season. result_or_empty (get_episodes_for_season e' k post season) =
    result_or_empty (get_episodes_for_season e k post season)"
  shows "map (\<lambda>f. (result_or_empty (fst f), snd f)) (future_to_season e' bs) =
    map (\<lambda>f. (result_or_empty (fst f), snd f)) (future_to_season e bs)"
  unfolding future_to_season_eq map_map comp_def fst_conv snd_conv
  by (simp only: assms)

lemma get_anime_info_results_cong:
  assumes "clock e' = clock e" and "md5_hexdigest e' = md5_hexdigest e"
    and "session_get e' = session_get e" and "parse_page e' = parse_page e"
    and "season_completion e' = season_completion e"
    and "\<And>k post season. result_or_empty (get_episodes_for_season e' k post season) =
      result_or_empty (get_episodes_for_season e k post season)"
  shows "get_anime_info e' url_path w = get_anime_info e url_path w"
  using assms(1-4)
proof (rule get_anime_info_env)
  fix bs
  have "map (\<lambda>f. (result_or_empty (fst f), snd f)) (future_to_season e' bs) =
      map (\<lambda>f. (result_or_empty (fst f), snd f)) (future_to_season e bs)"
    using assms(6) by (rule future_to_season_results_cong)
  then show "collect_results (permute (season_completion e') (future_to_season e' bs))
        (replicate (length (future_to_season e' bs)) None) =
      collect_results (permute (season_completion e) (future_to_season e bs))
        (replicate (length (future_to_season e bs)) None)"
    unfolding assms(5) by (rule collect_results_permute_cong)
qed

lemma failed_task_result:
  assumes "outcome = AjaxRequestException \<or> outcome = AjaxOtherError m"
  shows "result_or_empty (get_episodes_for_season
      (e\<lparr>ajax_get := (ajax_get e)(i := \<lambda>post season. outcome)\<rparr>) i post season) = []"
  using assms by (auto simp: get_episodes_for_season_def result_or_empty_def)

lemma sibling_task_result:
  assumes "k \<noteq> i"
  shows "get_episodes_for_season (e\<lparr>ajax_get := (ajax_get e)(i := t)\<rparr>) k post season =
    get_episodes_for_season e k post season"
  using assms by (simp add: get_episodes_for_season_def)

lemma failed_season_task:
  assumes "outcome = AjaxRequestException \<or> outcome = AjaxOtherError m"
  shows "get_anime_info (e\<lparr>ajax_get := (ajax_get e)(i := \<lambda>post season. outcome)\<rparr>) url_path w =
    get_anime_info (e\<lparr>ajax_get := (ajax_get e)(i := \<lambda>post season. AjaxItems [])\<rparr>) url_path w"
proof (rule get_anime_info_results_cong)
  fix k post season
  let ?e1 = "e\<lparr>ajax_get := (ajax_get e)(i := \<lambda>post season. outcome)\<rparr>"
  let ?e2 = "e\<lparr>ajax_get := (ajax_get e)(i := \<lambda>post season. AjaxItems [])\<rparr>"
  show "result_or_empty (get_episodes_for_season ?e1 k post season) =
      result_or_empty (get_episodes_for_season ?e2 k post season)"
  proof (cases "k = i")
    case True
    have "result_or_empty (get_episodes_for_season ?e2 i post season) = []"
      by (simp add: get_episodes_for_season_def result_or_empty_def)
    with failed_task_result [OF assms] True show ?thesis by simp
  next
    case False
    then show ?thesis by (simp add: sibling_task_result)
  qed
qed simp_all

lemma parsed_detail_page_env:
  assumes "clock e' = clock e" and "md5_hexdigest e' = md5_hexdigest e"
    and "session_get e' = session_get e" and "parse_page e' = parse_page e"
  shows "parsed_detail_page e' url_path w = parsed_detail_page e url_path w"
  unfolding parsed_detail_page_def
  by (simp only: fetched_detail_page_env [OF assms(1-3)] assms(4))

lemma get_anime_info_all_valid:
  assumes "parsed_detail_page e url_path w = Some page"
    and "season_buttons page \<noteq> []"
    and "\<forall>button \<in> set (season_buttons page). valid_button button"
  shows "\<exists>d. fst (get_anime_info e url_path w) = Ok200 (AnimeInfo d) \<and>
    episodes d =
      List.map_filter episode_of_item
        (concat (map (\<lambda>k. season_items e k (season_buttons page ! k))
           [0..<length (season_buttons page)]))"
proof -
  let ?bs = "season_buttons page"
  let ?t = "\<lambda>k. get_episodes_for_season e k (data_post (?bs ! k)) (data_season (?bs ! k))"
  have fts: "future_to_season e ?bs = map (\<lambda>k. (?t k, k)) [0..<length ?bs]"
    using assms(3) by (simp add: future_to_season_all_valid)
  have "mset (permute (season_completion e) (future_to_season e ?bs)) =
      mset (map (\<lambda>k. (?t k, k)) [0..<length ?bs])"
    by (simp only: fts mset_permute)
  from collect_results_all [OF this]
  have cr: "collect_results (permute (season_completion e) (future_to_season e ?bs))
        (replicate (length ?bs) None) =
      Inr (map (\<lambda>k. Some (result_or_empty (?t k))) [0..<length ?bs])" .
  have len: "length (future_to_season e ?bs) = length ?bs"
    by (simp only: fts length_map length_upt minus_nat.diff_0)
  show ?thesis
    using assms(2) cr len
    by (simp add: get_anime_info_fetched [OF assms(1)] all_episode_items_Some season_items_def)
qed

lemma season_items_task_ends:
  assumes "outcome = AjaxRequestException \<or> outcome = AjaxOtherError m"
  shows "season_items (season_task_ends e i outcome) k b =
    (if k = i then [] else season_items e k b)"
  using failed_task_result [OF assms, of e i] sibling_task_result [of k i e]
  by (simp add: season_items_def season_task_ends_def)

lemma failed_season_all_valid:
  assumes "outcome = AjaxRequestException \<or> outcome = AjaxOtherError m"
    and "parsed_detail_page e url_path w = Some page"
    and "season_buttons page \<noteq> []"
    and "\<forall>button \<in> set (season_buttons page). valid_button button"
  shows "\<exists>d. fst (get_anime_info (season_task_ends e i outcome) url_path w) = Ok200 (AnimeInfo d) \<and>
    episodes d =
      List.map_filter episode_of_item
        (concat (map (\<lambda>k. if k = i then [] else season_items e k (season_buttons page ! k))
           [0..<length (season_buttons page)]))"
proof -
  have "parsed_detail_page (season_task_ends e i outcome) url_path w = Some page"
    unfolding season_task_ends_def
    using assms(2) by (subst parsed_detail_page_env [of _ e]) simp_all
  from get_anime_info_all_valid [OF this assms(3,4)] show ?thesis
    by (simp only: season_items_task_ends [OF assms(1)])
qed

section \<open>Properties of the detail endpoint\<close>

text \<open>
  Claim C3. When the page of a detail request has season buttons that all carry a post
  identifier and a season number, the response is a detail record whose episodes are
  the per-season results concatenated in the order of the buttons on the page, each
  season contributing the items of its task (none when the task failed), and this for
  every order \<open>order\<close> in which the season futures complete.
\<close>

theorem season_order_preserved:
  assumes "parsed_detail_page e url_path w = Some page"
    and "season_buttons page \<noteq> []"
    and "\<forall>button \<in> set (season_buttons page). valid_button button"
  shows "\<exists>d. fst (get_anime_info (e\<lparr>season_completion := order\<rparr>) url_path w) = Ok200 (AnimeInfo d) \<and>
    episodes d =
      List.map_filter episode_of_item
        (concat (map (\<lambda>i. season_items e i (season_buttons page ! i))
           [0..<length (season_buttons page)]))"
proof -
  let ?e = "e\<lparr>season_completion := order\<rparr>"
  let ?bs = "season_buttons page"
  let ?t = "\<lambda>i. get_episodes_for_season e i (data_post (?bs ! i)) (data_season (?bs ! i))"
  have fts: "future_to_season e ?bs = map (\<lambda>i. (?t i, i)) [0..<length ?bs]"
    using assms(3) by (simp add: future_to_season_all_valid)
  have "mset (permute order (future_to_season e ?bs)) = mset (map (\<lambda>i. (?t i, i)) [0..<length ?bs])"
    by (simp only: fts mset_permute)
  from collect_results_all [OF this]
  have cr: "collect_results (permute order (future_to_season e ?bs)) (replicate (length ?bs) None) =
      Inr (map (\<lambda>i. Some (result_or_empty (?t i))) [0..<length ?bs])" .
  have len: "length (future_to_season e ?bs) = length ?bs"
    by (simp only: fts length_map length_upt minus_nat.diff_0)
  have page: "parsed_detail_page ?e url_path w = Some page"
    using assms(1) by simp
  show ?thesis
    using assms(2) cr len
    by (simp add: get_anime_info_fetched [OF page] all_episode_items_Some season_items_def)
qed

theorem season_order_preserved_witness:
  "\<exists>d. fst (get_anime_info
       ((detail_env [button ''7'' ''1'', button ''7'' ''2'', button ''7'' ''3''])
          \<lparr>season_completion := [2, 1, 0]\<rparr>) ''series/x'' new_world) = Ok200 (AnimeInfo d) \<and>
     map episode_link (episodes d) = [''ep-1'', ''ep-2'', ''ep-3'']"
proof -
  let ?bs = "[button ''7'' ''1'', button ''7'' ''2'', button ''7'' ''3'']"
  let ?page = "empty_soup\<lparr>season_buttons := ?bs\<rparr>"
  have a: "parsed_detail_page (detail_env ?bs) ''series/x'' new_world = Some ?page"
    by (rule parsed_detail_page_detail_env)
  have b: "season_buttons ?page \<noteq> []"
    by simp
  have c: "\<forall>button \<in> set (season_buttons ?page). valid_button button"
    by (simp add: valid_button_def button_def nonempty_def)
  have upt3: "[0..<3] = [0, 1, 2]"
    by (simp add: upt_rec)
  from season_order_preserved [OF a b c, of "[2, 1, 0]"] obtain d where
    d: "fst (get_anime_info ((detail_env ?bs)\<lparr>season_completion := [2, 1, 0]\<rparr>) ''series/x''
          new_world) = Ok200 (AnimeInfo d)"
      "episodes d = List.map_filter episode_of_item
        (concat (map (\<lambda>i. season_items (detail_env ?bs) i (season_buttons ?page ! i))
           [0..<length (season_buttons ?page)]))"
    by blast
  have "map episode_link (episodes d) = [''ep-1'', ''ep-2'', ''ep-3'']"
    unfolding d(2)
    by (simp add: upt3 season_items_def get_episodes_for_season_def
        result_or_empty_def detail_env_def plain_env_def button_def link_item_def
        List.map_filter_def episode_of_item_def startswith_def lstrip_def remove_base_url_def
        BASE_URL_def)
  with d(1) show ?thesis by (intro exI [of _ d] conjI)
qed

text \<open>
  Claim C7. When the page fetched for a detail request has no season button, the response
  is the not-found error (status 404), not a detail record and not a server error. This
  holds for a page the parser accepts. The parser runs inside the handler of the
  endpoint, and a page it rejects has no season button either, yet the response to it
  is a server error (status 500) with the text of the parser's exception: theorem
  \<open>rejected_page_is_server_error\<close> is such a request. The statement proved is the claim for
  the pages that pass the parser, together with the response to the others.
\<close>

theorem no_season_buttons_not_found:
  "(parsed_detail_page e url_path w = Some page \<longrightarrow> season_buttons page = [] \<longrightarrow>
      fst (get_anime_info e url_path w) = Err404 ''No season buttons found'') \<and>
   (fetched_detail_page e url_path w = Some html \<longrightarrow> parse_page e html = Inl ex \<longrightarrow>
      fst (get_anime_info e url_path w) = Err500 (str_exn ex))"
proof (intro conjI impI)
  assume "parsed_detail_page e url_path w = Some page" and "season_buttons page = []"
  then show "fst (get_anime_info e url_path w) = Err404 ''No season buttons found''"
    by (simp add: get_anime_info_fetched)
next
  assume "fetched_detail_page e url_path w = Some html" and "parse_page e html = Inl ex"
  then show "fst (get_anime_info e url_path w) = Err500 (str_exn ex)"
    by (rule get_anime_info_rejected)
qed

theorem rejected_page_is_server_error:
  "fetched_detail_page (rejecting_env ''<![UNKNOWN[]]>'') ''series/x'' new_world =
     Some ''<![UNKNOWN[]]>'' \<and>
   fst (get_anime_info (rejecting_env ''<![UNKNOWN[]]>'') ''series/x'' new_world) =
     Err500 ''unknown status keyword''"
  by (simp add: get_anime_info_def rejecting_env_def plain_env_def new_world_def cache_get_def
      CacheManager_init_def hit_def fetch_with_cache_def fetch_network_def cache_set_def Let_def
      fetched_detail_page_def)

theorem no_season_buttons_not_found_witness:
  "fst (get_anime_info (detail_env []) ''series/x'' new_world) = Err404 ''No season buttons found'' \<and>
   fst (get_anime_info (rejecting_env ''<p>'') ''series/x'' new_world) =
     Err500 ''unknown status keyword''"
proof -
  have a: "parsed_detail_page (detail_env []) ''series/x'' new_world =
      Some (empty_soup\<lparr>season_buttons := []\<rparr>)"
    by (rule parsed_detail_page_detail_env)
  have b: "season_buttons (empty_soup\<lparr>season_buttons := []\<rparr>) = []"
    by simp
  have c: "fetched_detail_page (rejecting_env ''<p>'') ''series/x'' new_world = Some ''<p>''"
    by (rule fetched_detail_page_rejecting_env)
  have d: "parse_page (rejecting_env ''<p>'') ''<p>'' = Inl (OtherError ''unknown status keyword'')"
    by (simp add: rejecting_env_def)
  from no_season_buttons_not_found [of "detail_env []" "''series/x''" new_world
      "empty_soup\<lparr>season_buttons := []\<rparr>" "''<p>''" "OtherError ''x''"] a b
  have "fst (get_anime_info (detail_env []) ''series/x'' new_world) =
      Err404 ''No season buttons found''"
    by blast
  moreover from no_season_buttons_not_found [of "rejecting_env ''<p>''" "''series/x''" new_world
      "empty_soup" "''<p>''" "OtherError ''unknown status keyword''"] c d
  have "fst (get_anime_info (rejecting_env ''<p>'') ''series/x'' new_world) =
      Err500 (str_exn (OtherError ''unknown status keyword''))"
    by blast
  ultimately show ?thesis
    by simp
qed

text \<open>
  Claim C9. In every successful detail response the field \<^verbatim>\<open>total_episodes\<close> is the length
  of \<^verbatim>\<open>episodes\<close>. A response can come from the cache, so the statement is an invariant:
  when every detail record in the cache counts its episodes, so does the record in the
  response, and so does every detail record in the cache afterwards. The cache of a new
  process is empty (lemma \<open>cache_all_new_world\<close>).
\<close>

theorem total_episodes_is_length:
  assumes "cache_all counts_episodes w"
  shows "(\<forall>d. fst (get_anime_info e url_path w) = Ok200 (AnimeInfo d) \<longrightarrow>
            total_episodes d = length (episodes d)) \<and>
         cache_all counts_episodes (snd (get_anime_info e url_path w))"
proof
  show "\<forall>d. fst (get_anime_info e url_path w) = Ok200 (AnimeInfo d) \<longrightarrow>
      total_episodes d = length (episodes d)"
  proof (intro allI impI)
    fix d assume ok: "fst (get_anime_info e url_path w) = Ok200 (AnimeInfo d)"
    show "total_episodes d = length (episodes d)"
    proof (cases "hit (fst (cache_get e (''anime_info_'' @ url_path) w))")
      case True
      from get_anime_info_cached [OF True] ok
      have "fst (cache_get e (''anime_info_'' @ url_path) w) = Some (AnimeInfo d)"
        by auto
      from cache_get_all(2) [OF assms this] show ?thesis
        by (simp add: counts_episodes_def)
    next
      case False
      then show ?thesis using ok by (rule get_anime_info_computed)
    qed
  qed
next
  show "cache_all counts_episodes (snd (get_anime_info e url_path w))"
    using assms by (rule get_anime_info_all) (simp_all add: counts_episodes_def)
qed

theorem total_episodes_is_length_witness:
  "\<exists>d. fst (get_anime_info (detail_env [button ''7'' ''1'']) ''series/x'' new_world) =
     Ok200 (AnimeInfo d) \<and> total_episodes d = length (episodes d) \<and> total_episodes d = 1"
proof -
  from detail_env_one_season obtain d where
    d: "fst (get_anime_info (detail_env [button ''7'' ''1'']) ''series/x'' new_world) =
      Ok200 (AnimeInfo d)" "map episode_link (episodes d) = [''ep-1'']"
    by auto
  from total_episodes_is_length [OF cache_all_new_world, of "detail_env [button ''7'' ''1'']"
      "''series/x''"] d(1)
  have t: "total_episodes d = length (episodes d)" by blast
  moreover from d(2) have "length (episodes d) = 1"
    by (metis length_map length_Cons list.size(3) One_nat_def)
  ultimately show ?thesis using d(1) by (intro exI [of _ d]) simp
qed

text \<open>
  Claim C10. When on the page of a detail request a season button that lacks
  \<^verbatim>\<open>data-post\<close> or \<^verbatim>\<open>data-season\<close> (or has it empty) stands before a button that has
  both, the request fails with a server error (status 500, the text of the
  \<^verbatim>\<open>IndexError\<close>). The list of results has one slot per valid button and a button writes
  the slot of its position among all buttons. The slot that lies outside the list is
  that of the last valid button of the page, which is the later valid button or stands
  behind it. The slot of the later valid button itself can lie inside the list: theorem
  \<open>later_valid_slot_inside\<close> is a page with an invalid button followed by two valid ones,
  where the list has two slots and the button at position 1 writes slot 1.
\<close>

theorem invalid_button_before_valid_fails:
  assumes "parsed_detail_page e url_path w = Some page"
    and "i < j" and "j < length (season_buttons page)"
    and "\<not> valid_button (season_buttons page ! i)"
    and "valid_button (season_buttons page ! j)"
  shows "fst (get_anime_info e url_path w) = Err500 ''list assignment index out of range'' \<and>
    length (future_to_season e (season_buttons page)) =
      length (filter valid_button (season_buttons page)) \<and>
    (\<exists>k < length (season_buttons page).
       valid_button (season_buttons page ! k) \<and> j \<le> k \<and>
       (\<forall>m < length (season_buttons page). valid_button (season_buttons page ! m) \<longrightarrow> m \<le> k) \<and>
       k \<in> set (map snd (future_to_season e (season_buttons page))) \<and>
       length (future_to_season e (season_buttons page)) \<le> k)"
proof -
  let ?bs = "season_buttons page"
  let ?fs = "future_to_season e ?bs"
  from last_valid_slot_outside [OF assms(2-5)] obtain k where
    k: "k < length ?bs" "valid_button (?bs ! k)" "j \<le> k"
      "\<forall>m < length ?bs. valid_button (?bs ! m) \<longrightarrow> m \<le> k"
      "length (filter valid_button ?bs) \<le> k"
    by blast
  have slot: "k \<in> set (map snd ?fs)"
    using k(1,2) by (simp add: future_to_season_snd)
  then obtain r where "(r, k) \<in> set ?fs" by auto
  then have mem: "(r, k) \<in> set (permute (season_completion e) ?fs)" by simp
  have len: "length ?fs \<le> k"
    using k(5) by (simp add: length_future_to_season)
  then have "length (replicate (length ?fs) (None :: li list option)) \<le> k"
    by simp
  with mem have "collect_results (permute (season_completion e) ?fs)
      (replicate (length ?fs) None) = Inl IndexError"
    by (rule collect_results_IndexError)
  moreover have "?bs \<noteq> []" using assms(3) by auto
  ultimately have "fst (get_anime_info e url_path w) = Err500 ''list assignment index out of range''"
    by (simp add: get_anime_info_fetched [OF assms(1)])
  moreover have "length ?fs = length (filter valid_button ?bs)"
    by (rule length_future_to_season)
  ultimately show ?thesis
    using k(1-4) slot len by blast
qed

theorem later_valid_slot_inside:
  "map valid_button [bare_button, button ''7'' ''1'', button ''7'' ''2''] = [False, True, True] \<and>
   map snd (future_to_season (detail_env [bare_button, button ''7'' ''1'', button ''7'' ''2''])
     [bare_button, button ''7'' ''1'', button ''7'' ''2'']) = [1, 2] \<and>
   length (future_to_season (detail_env [bare_button, button ''7'' ''1'', button ''7'' ''2''])
     [bare_button, button ''7'' ''1'', button ''7'' ''2'']) = 2"
  by (simp add: future_to_season_def valid_button_def button_def bare_button_def nonempty_def)

theorem invalid_button_before_valid_fails_witness:
  "fst (get_anime_info (detail_env [bare_button, button ''7'' ''1'', button ''7'' ''2''])
     ''series/x'' new_world) = Err500 ''list assignment index out of range''"
proof -
  let ?bs = "[bare_button, button ''7'' ''1'', button ''7'' ''2'']"
  let ?page = "empty_soup\<lparr>season_buttons := ?bs\<rparr>"
  have a: "parsed_detail_page (detail_env ?bs) ''series/x'' new_world = Some ?page"
    by (rule parsed_detail_page_detail_env)
  have b: "(0::nat) < 1" by simp
  have c: "1 < length (season_buttons ?page)"
    by simp
  have d: "\<not> valid_button (season_buttons ?page ! 0)"
    by (simp add: valid_button_def bare_button_def nonempty_def)
  have e: "valid_button (season_buttons ?page ! 1)"
    by (simp add: valid_button_def button_def nonempty_def)
  from invalid_button_before_valid_fails [OF a b c d e] show ?thesis by blast
qed

section \<open>Lemmas about the stream endpoint\<close>

lemma sequence_Inr: "sequence xs = Inr ys \<Longrightarrow> xs = map Inr ys"
  by (induction xs arbitrary: ys) (auto split: sum.splits)

lemma sequence_map_set:
  assumes "sequence (map f xs) = Inr ys" and "y \<in> set ys"
  shows "\<exists>x \<in> set xs. f x = Inr y"
proof -
  from assms(1) have "map f xs = map Inr ys" by (rule sequence_Inr)
  then have "Inr y \<in> set (map f xs)" using assms(2) by simp
  then show ?thesis by auto
qed

lemma findall_set:
  "g \<in> set (findall pat s) \<Longrightarrow> \<exists>t n. pat t = Some (n, g)"
  by (induction pat s rule: findall.induct) (auto split: option.splits)

lemma get_streaming_links_fetched:
  assumes "fetched_stream_page e url_path w = Some html"
  shows "fst (get_streaming_links e url_path w) =
     (case extract_streams e url_path (source_url_of url_path) html of
        Inl ex \<Rightarrow> Err500 (str_exn ex)
      | Inr result \<Rightarrow> Ok200 (Streams result))"
proof -
  let ?key = "''stream_'' @ url_path"
  from assms have miss: "\<not> hit (fst (cache_get e ?key w))"
    by (simp add: fetched_stream_page_def split: if_splits)
  from assms have body: "fst (fetch_with_cache e (source_url_of url_path) False
      (snd (cache_get e ?key w))) = Inr (Body html)"
    by (simp add: fetched_stream_page_def split: if_splits sum.splits cached_value.splits)
  obtain w2 where f: "fetch_with_cache e (source_url_of url_path) False
      (snd (cache_get e ?key w)) = (Inr (Body html), w2)"
    using body by (metis fst_conv surj_pair)
  show ?thesis
    using miss f
    by (simp add: get_streaming_links_def Let_def split: sum.splits)
qed

lemma get_streaming_links_result:
  assumes "fst (get_streaming_links e url_path w) = Ok200 (Streams r)"
  shows "fst (cache_get e (''stream_'' @ url_path) w) = Some (Streams r) \<or>
    (\<exists>html. extract_streams e url_path (source_url_of url_path) html = Inr r)"
  using assms
  by (auto simp: get_streaming_links_def Let_def hit_def
      split: prod.splits sum.splits option.splits cached_value.splits if_splits)

lemma get_streaming_links_all:
  assumes "cache_all P w" and "\<And>s. P (Body s)"
    and "\<And>html r. extract_streams e url_path (source_url_of url_path) html = Inr r \<Longrightarrow>
      P (Streams r)"
  shows "cache_all P (snd (get_streaming_links e url_path w))"
proof -
  let ?w1 = "snd (cache_get e (''stream_'' @ url_path) w)"
  have w1: "cache_all P ?w1" using assms(1) by (rule cache_get_all)
  have w2: "cache_all P (snd (fetch_with_cache e (source_url_of url_path) False ?w1))"
    using w1 assms(2) by (rule fetch_with_cache_all)
  show ?thesis
    using w1 w2 assms(3)
    by (auto simp: get_streaming_links_def Let_def intro!: cache_set_all
        split: prod.splits sum.splits option.splits cached_value.splits)
qed

lemma extract_streams_total:
  assumes "extract_streams e url_path source_url html = Inr r"
  shows "total_streams r = length (m3u8_links r) + length (video_links r) + length (iframes r)"
  using assms
  by (auto simp: extract_streams_def Let_def split: sum.splits)


subsection \<open>Schemes and absolute URLs\<close>

lemma lower_char_ascii:
  assumes "lower_char c = d" and "(of_char d :: nat) < 128"
  shows "c = d \<or> map_of (zip ascii_uppercase ascii_lowercase) c = Some d"
proof (cases "map_of (zip ascii_uppercase ascii_lowercase) c")
  case None
  show ?thesis
  proof (cases "192 \<le> (of_char c :: nat) \<and> (of_char c :: nat) \<le> 222 \<and> (of_char c :: nat) \<noteq> 215")
    case True
    then have "d = char_of ((of_char c :: nat) + 32)"
      using assms(1) None by (simp add: lower_char_def Let_def)
    then have "(of_char d :: nat) = ((of_char c :: nat) + 32) mod 256"
      by simp
    with True assms(2) show ?thesis by auto
  next
    case False
    then show ?thesis using assms(1) None by (auto simp add: lower_char_def Let_def)
  qed
next
  case (Some a)
  then show ?thesis using assms(1) by (simp add: lower_char_def)
qed

lemma scheme_chars_all:
  "list_all (\<lambda>c. lower_char c \<in> set scheme_chars \<and> \<not> unsafe_url_byte c \<and>
      \<not> c0_control_or_space c \<and> c \<noteq> CHR '':'') scheme_chars"
  by code_simp

lemma scheme_char_facts:
  assumes "c \<in> set scheme_chars"
  shows "lower_char c \<in> set scheme_chars" and "\<not> unsafe_url_byte c"
    and "\<not> c0_control_or_space c" and "c \<noteq> CHR '':''"
  using assms scheme_chars_all unfolding list_all_iff by blast+

lemma alpha_chars_all:
  "list_all (\<lambda>c. isascii_alpha (lower_char c) \<and> c \<in> set scheme_chars)
     (ascii_lowercase @ ascii_uppercase)"
  by code_simp

lemma isascii_alpha_facts:
  assumes "isascii_alpha c"
  shows "isascii_alpha (lower_char c)" and "c \<in> set scheme_chars"
proof -
  from assms have "c \<in> set (ascii_lowercase @ ascii_uppercase)"
    by (auto simp: isascii_alpha_def)
  with alpha_chars_all show "isascii_alpha (lower_char c)" and "c \<in> set scheme_chars"
    unfolding list_all_iff by blast+
qed

lemma find_char_append:
  "c \<notin> set xs \<Longrightarrow> find_char c (xs @ c # ys) = Some (length xs)"
  by (induction xs) auto

lemma wf_scheme_lower: "wf_scheme s \<Longrightarrow> wf_scheme (lower s)"
  by (cases s)
    (auto simp: wf_scheme_def lower_def list_all_iff
      dest: scheme_char_facts(1) isascii_alpha_facts(1))

lemma split_scheme_cases:
  "split_scheme x d = (d, x) \<or>
   (wf_scheme (fst (split_scheme x d)) \<and> (\<forall>d'. split_scheme x d' = split_scheme x d))"
proof (cases "find_char CHR '':'' x")
  case None
  then show ?thesis by (simp add: split_scheme_def)
next
  case (Some i)
  show ?thesis
  proof (cases "0 < i \<and> (case x of [] \<Rightarrow> False | c # cs \<Rightarrow> isascii_alpha c) \<and>
      list_all (\<lambda>c. c \<in> set scheme_chars) (take i x)")
    case False
    with Some show ?thesis by (auto simp add: split_scheme_def)
  next
    case True
    then obtain c cs where x: "x = c # cs" and c: "isascii_alpha c"
      by (cases x) auto
    from True obtain j where i: "i = Suc j" by (cases i) auto
    have "wf_scheme (take i x)"
      using True x c i by (simp add: wf_scheme_def)
    then have "wf_scheme (lower (take i x))" by (rule wf_scheme_lower)
    moreover have "\<And>d'. split_scheme x d' = (lower (take i x), drop (Suc i) x)"
      using Some True by (simp add: split_scheme_def)
    ultimately show ?thesis by simp
  qed
qed

lemma is_absolute_scheme:
  assumes "is_absolute u"
  shows "wf_scheme (fst (split_scheme (clean_url u) d))"
    and "fst (split_scheme (clean_url u) d) = fst (split_scheme (clean_url u) [])"
proof -
  from assms have "split_scheme (clean_url u) [] \<noteq> ([], clean_url u)"
    by (auto simp: is_absolute_def)
  with split_scheme_cases [of "clean_url u" "[]"]
  have "wf_scheme (fst (split_scheme (clean_url u) []))"
    and "\<forall>d'. split_scheme (clean_url u) d' = split_scheme (clean_url u) []"
    by auto
  then show "wf_scheme (fst (split_scheme (clean_url u) d))"
    and "fst (split_scheme (clean_url u) d) = fst (split_scheme (clean_url u) [])"
    by metis+
qed

lemma wf_scheme_not_Nil: "wf_scheme s \<Longrightarrow> s \<noteq> []"
  by (auto simp: wf_scheme_def)

lemma not_absolute_scheme:
  assumes "\<not> is_absolute u"
  shows "fst (split_scheme (clean_url u) d) = d"
proof -
  from split_scheme_cases [of "clean_url u" d]
  show ?thesis
  proof
    assume "split_scheme (clean_url u) d = (d, clean_url u)"
    then show ?thesis by simp
  next
    assume a: "wf_scheme (fst (split_scheme (clean_url u) d)) \<and>
      (\<forall>d'. split_scheme (clean_url u) d' = split_scheme (clean_url u) d)"
    then have "fst (split_scheme (clean_url u) []) = fst (split_scheme (clean_url u) d)"
      by metis
    with a have "is_absolute u"
      by (simp add: is_absolute_def wf_scheme_not_Nil)
    with assms show ?thesis by simp
  qed
qed

lemma wf_scheme_prefix_absolute:
  assumes "wf_scheme s"
  shows "is_absolute (s @ '':'' @ rest)"
proof -
  from assms obtain c cs where s: "s = c # cs" and c: "isascii_alpha c"
    by (cases s) (auto simp: wf_scheme_def)
  have chars: "\<forall>x \<in> set s. x \<in> set scheme_chars"
    using assms by (simp add: wf_scheme_def list_all_iff)
  have "\<not> c0_control_or_space c"
    using c by (blast dest: isascii_alpha_facts(2) scheme_char_facts(3))
  then have "dropWhile c0_control_or_space (s @ '':'' @ rest) = s @ '':'' @ rest"
    by (simp add: s)
  moreover have "filter (\<lambda>c. \<not> unsafe_url_byte c) s = s"
    using chars by (auto simp: filter_id_conv dest: scheme_char_facts(2))
  ultimately have clean: "clean_url (s @ '':'' @ rest) =
      s @ CHR '':'' # filter (\<lambda>c. \<not> unsafe_url_byte c) rest"
    by (simp add: clean_url_def unsafe_url_byte_def)
  have "CHR '':'' \<notin> set s"
    using chars by (blast dest: scheme_char_facts(4))
  then have find: "find_char CHR '':'' (s @ CHR '':'' # filter (\<lambda>c. \<not> unsafe_url_byte c) rest) =
      Some (length s)"
    by (rule find_char_append)
  have "fst (split_scheme (clean_url (s @ '':'' @ rest)) []) = lower s"
    unfolding clean split_scheme_def find
    using assms c by (simp add: s wf_scheme_def)
  then show ?thesis
    by (simp add: is_absolute_def lower_def s)
qed

lemma dropWhile_id: "(case xs of [] \<Rightarrow> True | x # _ \<Rightarrow> \<not> P x) \<Longrightarrow> dropWhile P xs = xs"
  by (cases xs) auto

lemma clean_scheme_wf:
  assumes "wf_scheme s"
  shows "clean_scheme s = s"
proof -
  have chars: "\<forall>x \<in> set s. x \<in> set scheme_chars"
    using assms by (simp add: wf_scheme_def list_all_iff)
  then have no_c0: "\<forall>x \<in> set s. \<not> c0_control_or_space x"
    by (blast dest: scheme_char_facts(3))
  have front: "dropWhile c0_control_or_space s = s"
    using no_c0 by (intro dropWhile_id) (auto split: list.splits)
  have rear: "dropWhile c0_control_or_space (rev s) = rev s"
    using no_c0 by (intro dropWhile_id) (auto split: list.splits)
  have "filter (\<lambda>c. \<not> unsafe_url_byte c) s = s"
    using chars by (auto simp: filter_id_conv dest: scheme_char_facts(2))
  then show ?thesis
    by (simp add: clean_scheme_def front rear)
qed

lemma clean_scheme_Nil [simp]: "clean_scheme [] = []"
  by (simp add: clean_scheme_def)

lemma urlsplit_scheme:
  assumes "urlsplit e u d = Inr (scheme, netloc, path, query, fragment)"
  shows "scheme = fst (split_scheme (clean_url u) (clean_scheme d))"
  using assms
  by (auto simp: urlsplit_def Let_def split: prod.splits option.splits)

lemma urlparse_scheme:
  assumes "urlparse e u d = Inr (scheme, netloc, path, params, query, fragment)"
  shows "scheme = fst (split_scheme (clean_url u) (clean_scheme d))"
  using assms
  by (auto simp: urlparse_def split: sum.splits prod.splits if_splits dest: urlsplit_scheme)

lemma urlunparse_scheme:
  assumes "scheme \<noteq> []"
  shows "\<exists>rest. urlunparse (scheme, netloc, path, params, query, fragment) =
    scheme @ '':'' @ rest"
  using assms by (simp add: urlunparse_def urlunsplit_def Let_def)

lemma urlunparse_absolute:
  assumes "wf_scheme scheme"
  shows "is_absolute (urlunparse (scheme, netloc, path, params, query, fragment))"
proof -
  from assms have "scheme \<noteq> []" by (rule wf_scheme_not_Nil)
  from urlunparse_scheme [OF this] obtain rest where
    "urlunparse (scheme, netloc, path, params, query, fragment) = scheme @ '':'' @ rest"
    by blast
  with wf_scheme_prefix_absolute [OF assms, of rest] show ?thesis by simp
qed

lemma urljoin_cases:
  assumes "urljoin e base u = Inr r"
  shows "r = u \<and> base = [] \<or> r = base \<and> u = [] \<or>
    (\<exists>bscheme bnetloc bpath bparams bquery bfragment scheme netloc path params query fragment.
       urlparse e base [] = Inr (bscheme, bnetloc, bpath, bparams, bquery, bfragment) \<and>
       urlparse e u bscheme = Inr (scheme, netloc, path, params, query, fragment) \<and>
       (r = u \<and> (scheme \<noteq> bscheme \<or> scheme \<notin> set uses_relative) \<or>
        (scheme = bscheme \<and>
         (\<exists>n p pa q. r = urlunparse (bscheme, n, p, pa, q, fragment)))))"
  using assms
  unfolding urljoin_def Let_def
  by (auto split: if_splits sum.splits prod.splits)

lemma not_absolute_Nil [simp]: "\<not> is_absolute []"
  by (simp add: is_absolute_def clean_url_def split_scheme_def)

lemma urljoin_absolute_ref:
  assumes "urljoin e base u = Inr r" and "is_absolute u"
  shows "is_absolute r"
  using urljoin_cases [OF assms(1)]
proof (elim disjE exE conjE, goal_cases)
  case 1
  with assms(2) show ?case by simp
next
  case 2
  with assms(2) show ?case by simp
next
  case 3
  with assms(2) show ?case by simp
next
  case 4
  with assms(2) show ?case by simp
next
  case (5 bscheme bnetloc bpath bparams bquery bfragment scheme netloc path params query
      fragment n p pa q)
  have "scheme = fst (split_scheme (clean_url u) (clean_scheme bscheme))"
    using 5(2) by (rule urlparse_scheme)
  with is_absolute_scheme(1) [OF assms(2), of "clean_scheme bscheme"] 5(3)
  have "wf_scheme bscheme" by simp
  with 5(4) show ?case by (simp add: urlunparse_absolute)
qed

lemma urljoin_absolute_base:
  assumes "urljoin e base u = Inr r" and "is_absolute base"
    and "fst (split_scheme (clean_url base) []) \<in> set uses_relative"
  shows "is_absolute r"
  using urljoin_cases [OF assms(1)]
proof (elim disjE exE conjE, goal_cases)
  case 1
  with assms(2) show ?case by simp
next
  case 2
  with assms(2) show ?case by simp
next
  case (3 bscheme bnetloc bpath bparams bquery bfragment scheme netloc path params query
      fragment)
  have b: "bscheme = fst (split_scheme (clean_url base) [])"
    using urlparse_scheme [OF 3(1)] by simp
  then have wf: "wf_scheme bscheme"
    using is_absolute_scheme(1) [OF assms(2), of "[]"] by simp
  have s: "scheme = fst (split_scheme (clean_url u) bscheme)"
    using urlparse_scheme [OF 3(2)] by (simp add: clean_scheme_wf [OF wf])
  have "is_absolute u"
  proof (rule ccontr)
    assume "\<not> is_absolute u"
    then have "scheme = bscheme" using s by (simp add: not_absolute_scheme)
    with 3(4) show False by simp
  qed
  with 3(3) show ?case by simp
next
  case (4 bscheme bnetloc bpath bparams bquery bfragment scheme netloc path params query
      fragment)
  have b: "bscheme = fst (split_scheme (clean_url base) [])"
    using urlparse_scheme [OF 4(1)] by simp
  then have wf: "wf_scheme bscheme"
    using is_absolute_scheme(1) [OF assms(2), of "[]"] by simp
  have s: "scheme = fst (split_scheme (clean_url u) bscheme)"
    using urlparse_scheme [OF 4(2)] by (simp add: clean_scheme_wf [OF wf])
  have "is_absolute u"
  proof (rule ccontr)
    assume "\<not> is_absolute u"
    then have "scheme = bscheme" using s by (simp add: not_absolute_scheme)
    with 4(4) b assms(3) show False by simp
  qed
  with 4(3) show ?case by simp
next
  case (5 bscheme bnetloc bpath bparams bquery bfragment scheme netloc path params query
      fragment n p pa q)
  have "bscheme = fst (split_scheme (clean_url base) [])"
    using urlparse_scheme [OF 5(1)] by simp
  then have "wf_scheme bscheme"
    using is_absolute_scheme(1) [OF assms(2), of "[]"] by simp
  with 5(4) show ?case by (simp add: urlunparse_absolute)
qed

lemma ascii_lowercase_small: "list_all (\<lambda>d. (of_char d :: nat) < 128) ascii_lowercase"
  by code_simp

lemma colon_not_lowercase: "CHR '':'' \<notin> set ascii_lowercase"
  by code_simp

lemma lower_char_letter:
  assumes "lower_char c \<in> set ascii_lowercase"
  shows "isascii_alpha c"
proof -
  have "(of_char (lower_char c) :: nat) < 128"
    using assms ascii_lowercase_small unfolding list_all_iff by blast
  from lower_char_ascii [OF refl this]
  show ?thesis
  proof
    assume "c = lower_char c"
    with assms show ?thesis by (simp add: isascii_alpha_def)
  next
    assume "map_of (zip ascii_uppercase ascii_lowercase) c = Some (lower_char c)"
    then have "(c, lower_char c) \<in> set (zip ascii_uppercase ascii_lowercase)"
      by (rule map_of_SomeD)
    then have "c \<in> set ascii_uppercase" by (rule set_zip_leftD)
    then show ?thesis by (simp add: isascii_alpha_def)
  qed
qed

lemma lower_char_colon:
  assumes "lower_char c = CHR '':''"
  shows "c = CHR '':''"
proof -
  have "(of_char (CHR '':'') :: nat) < 128" by simp
  from lower_char_ascii [OF assms this]
  show ?thesis
  proof
    assume "map_of (zip ascii_uppercase ascii_lowercase) c = Some CHR '':''"
    then have "(c, CHR '':'') \<in> set (zip ascii_uppercase ascii_lowercase)"
      by (rule map_of_SomeD)
    then have "CHR '':'' \<in> set ascii_lowercase" by (rule set_zip_rightD)
    with colon_not_lowercase show ?thesis by simp
  qed
qed

lemma letters_wf_scheme:
  assumes "list_all (\<lambda>c. c \<in> set ascii_lowercase) (lower pre)" and "pre \<noteq> []"
  shows "wf_scheme pre"
proof -
  have alpha: "\<forall>c \<in> set pre. isascii_alpha c"
    using assms(1) by (auto simp: lower_def list_all_iff intro: lower_char_letter)
  then have "\<forall>c \<in> set pre. c \<in> set scheme_chars"
    by (blast dest: isascii_alpha_facts(2))
  with alpha assms(2) show ?thesis
    by (cases pre) (auto simp: wf_scheme_def list_all_iff)
qed

lemma scheme_prefix_absolute:
  assumes "lower (take k s) = sch" and "list_all (\<lambda>c. c \<in> set ascii_lowercase) sch"
    and "0 < k" and "k < length s" and "lower_char (s ! k) = CHR '':''" and "k < n"
  shows "is_absolute (take n s)"
proof -
  have colon: "s ! k = CHR '':''" using assms(5) by (rule lower_char_colon)
  have "take k s \<noteq> []" using assms(3,4) by auto
  with assms(1,2) have wf: "wf_scheme (take k s)" by (intro letters_wf_scheme) simp_all
  have "s = take k s @ s ! k # drop (Suc k) s"
    using assms(4) by (rule id_take_nth_drop)
  then have "take n s = take n (take k s @ CHR '':'' # drop (Suc k) s)"
    using colon by simp
  also have "\<dots> = take k s @ '':'' @ take (n - Suc k) (drop (Suc k) s)"
    using assms(4,6) by (simp add: min_def take_Cons')
  finally show ?thesis
    using wf_scheme_prefix_absolute [OF wf] by simp
qed

lemma imatch_take:
  assumes "imatch lit s" and "k \<le> length lit"
  shows "lower (take k s) = take k lit" and "length lit \<le> length s"
proof -
  from assms(1) have eq: "lower (take (length lit) s) = lit" by (simp add: imatch_def)
  then have "take k (lower (take (length lit) s)) = take k lit" by simp
  then show "lower (take k s) = take k lit"
    using assms(2) by (simp add: lower_def take_map min_def)
  from eq have "length (take (length lit) s) = length lit"
    by (metis length_map lower_def)
  then show "length lit \<le> length s" by simp
qed

lemma imatch_nth:
  assumes "imatch lit s" and "k < length lit"
  shows "lower_char (s ! k) = lit ! k"
proof -
  from assms(1) have eq: "lower (take (length lit) s) = lit" by (simp add: imatch_def)
  have len: "length lit \<le> length s" using imatch_take(2) [OF assms(1), of 0] by simp
  have "lower (take (length lit) s) ! k = lower_char (s ! k)"
    using assms(2) len by (simp add: lower_def)
  with eq show ?thesis by simp
qed

lemma http_prefix_absolute:
  assumes "http_prefix s = Some p" and "p \<le> n"
  shows "is_absolute (take n s)"
proof (cases "imatch ''https://'' s")
  case True
  then have p: "p = 8" using assms(1) by (simp add: http_prefix_def)
  have "lower (take 5 s) = take 5 ''https://''" and "length ''https://'' \<le> length s"
    using imatch_take [OF True, of 5] by simp_all
  moreover have "lower_char (s ! 5) = ''https://'' ! 5"
    using imatch_nth [OF True, of 5] by simp
  ultimately show ?thesis
    using assms(2) p
    by (intro scheme_prefix_absolute [where k = 5 and sch = "''https''"])
      (simp_all add: ascii_lowercase_def)
next
  case False
  then have m: "imatch ''http://'' s" and p: "p = 7"
    using assms(1) by (simp_all add: http_prefix_def split: if_splits)
  have "lower (take 4 s) = take 4 ''http://''" and "length ''http://'' \<le> length s"
    using imatch_take [OF m, of 4] by simp_all
  moreover have "lower_char (s ! 4) = ''http://'' ! 4"
    using imatch_nth [OF m, of 4] by simp
  ultimately show ?thesis
    using assms(2) p
    by (intro scheme_prefix_absolute [where k = 4 and sch = "''http''"])
      (simp_all add: ascii_lowercase_def)
qed

lemma m3u8_pattern_absolute: "m3u8_pattern s = Some (n, g) \<Longrightarrow> is_absolute g"
  by (auto simp: m3u8_pattern_def split: option.splits intro: http_prefix_absolute)

lemma video_pattern_absolute: "video_pattern s = Some (n, g) \<Longrightarrow> is_absolute g"
  by (auto simp: video_pattern_def split: option.splits intro: http_prefix_absolute)


subsection \<open>The URLs of a stream result\<close>

lemma startswith_Cons: "startswith s (a # pre) \<Longrightarrow> \<exists>rest. s = a # rest"
  by (cases s) (auto simp: startswith_def)

lemma source_url_of_prefix: "\<exists>q. source_url_of url_path = ''https://animesalt.cc/'' @ q"
proof (cases "startswith url_path ''movies/'' \<or> startswith url_path ''episode/''")
  case True
  then obtain c rest where "url_path = c # rest" and "c = CHR ''m'' \<or> c = CHR ''e''"
    by (auto dest!: startswith_Cons)
  then show ?thesis
    using True by (auto simp: source_url_of_def add_base_url_def startswith_def BASE_URL_def)
next
  case False
  then show ?thesis
    by (simp add: source_url_of_def add_base_url_def startswith_def BASE_URL_def)
qed

lemma source_url_scheme:
  "fst (split_scheme (clean_url (source_url_of url_path)) d) = ''https''"
proof -
  obtain q where "source_url_of url_path = ''https://animesalt.cc/'' @ q"
    using source_url_of_prefix by blast
  then show ?thesis
    by (simp add: clean_url_def c0_control_or_space_def unsafe_url_byte_def split_scheme_def
        isascii_alpha_def scheme_chars_def ascii_lowercase_def ascii_uppercase_def
        lower_def lower_char_def)
qed

lemma source_url_absolute: "is_absolute (source_url_of url_path)"
  by (simp add: is_absolute_def source_url_scheme)

lemma source_url_relative:
  "fst (split_scheme (clean_url (source_url_of url_path)) []) \<in> set uses_relative"
  by (simp add: source_url_scheme uses_relative_def)

lemma find_urls_in_text_absolute:
  assumes "find_urls_in_text e text base_url = Inr urls" and "u \<in> set urls"
  shows "is_absolute u"
proof -
  let ?found = "findall m3u8_pattern text @ findall video_pattern text"
  from assms(1) obtain absolute_urls where
    seq: "sequence (map (urljoin e base_url) ?found) = Inr absolute_urls"
    and urls: "urls = list_set (hash_order e) absolute_urls"
    by (auto simp: find_urls_in_text_def Let_def split: sum.splits)
  from assms(2) urls have "u \<in> set absolute_urls" by simp
  from sequence_map_set [OF seq this] obtain g where
    g: "g \<in> set ?found" and join: "urljoin e base_url g = Inr u"
    by blast
  from g have "is_absolute g"
    by (auto dest!: findall_set dest: m3u8_pattern_absolute video_pattern_absolute)
  with join show ?thesis by (rule urljoin_absolute_ref)
qed

lemma scan_js_file_absolute: "u \<in> set (scan_js_file e js_url) \<Longrightarrow> is_absolute u"
  by (auto simp: scan_js_file_def split: option.splits sum.splits
      dest: find_urls_in_text_absolute [OF sym])

lemma set_m3u8_of [simp]: "set (m3u8_of xs) = {u \<in> set xs. mentions_m3u8 u}"
  by (simp add: m3u8_of_def)

lemma set_video_of [simp]: "set (video_of xs) = {u \<in> set xs. mentions_video u}"
  by (simp add: video_of_def)

lemma set_filtered_streams: "set (filtered_streams xs) \<subseteq> set xs"
  by (auto simp: filtered_streams_def)

lemma extract_streams_parts:
  assumes "extract_streams e url_path source_url html = Inr r"
  shows "\<exists>html_streams js_file_urls joined.
    find_urls_in_text e html source_url = Inr html_streams \<and>
    find_js_file_urls e html source_url = Inr js_file_urls \<and>
    sequence (map (urljoin e source_url) (findall iframe_pattern html)) = Inr joined \<and>
    iframes r = list_set (hash_order e) joined \<and>
    m3u8_links r = m3u8_of (filtered_streams (list_set (hash_order e)
      (html_streams @ concat (permute (js_completion e)
         (map (scan_js_file e) (take 5 js_file_urls)))))) \<and>
    video_links r = video_of (filtered_streams (list_set (hash_order e)
      (html_streams @ concat (permute (js_completion e)
         (map (scan_js_file e) (take 5 js_file_urls))))))"
  using assms
  by (auto simp: extract_streams_def Let_def split: sum.splits)

lemma extract_streams_absolute:
  assumes "extract_streams e url_path (source_url_of url_path) html = Inr r"
    and "u \<in> set (m3u8_links r) \<union> set (video_links r) \<union> set (iframes r)"
  shows "is_absolute u"
proof -
  let ?src = "source_url_of url_path"
  from extract_streams_parts [OF assms(1)] obtain html_streams js_file_urls joined where
    html: "find_urls_in_text e html ?src = Inr html_streams"
    and seq: "sequence (map (urljoin e ?src) (findall iframe_pattern html)) = Inr joined"
    and ifr: "iframes r = list_set (hash_order e) joined"
    and m: "m3u8_links r = m3u8_of (filtered_streams (list_set (hash_order e)
      (html_streams @ concat (permute (js_completion e)
         (map (scan_js_file e) (take 5 js_file_urls))))))"
    and v: "video_links r = video_of (filtered_streams (list_set (hash_order e)
      (html_streams @ concat (permute (js_completion e)
         (map (scan_js_file e) (take 5 js_file_urls))))))"
    by blast
  let ?all = "html_streams @ concat (permute (js_completion e)
         (map (scan_js_file e) (take 5 js_file_urls)))"
  have all: "is_absolute x" if "x \<in> set ?all" for x
    using that html
    by (auto dest: find_urls_in_text_absolute scan_js_file_absolute)
  from assms(2) consider "u \<in> set (m3u8_links r) \<union> set (video_links r)" | "u \<in> set (iframes r)"
    by blast
  then show ?thesis
  proof cases
    case 1
    then have "u \<in> set (filtered_streams (list_set (hash_order e) ?all))"
      using m v by auto
    then have "u \<in> set ?all"
      using set_filtered_streams by fastforce
    then show ?thesis by (rule all)
  next
    case 2
    then have "u \<in> set joined" using ifr by simp
    from sequence_map_set [OF seq this] obtain g where "urljoin e ?src g = Inr u"
      by blast
    then show ?thesis
      using source_url_absolute source_url_relative by (rule urljoin_absolute_base)
  qed
qed

lemma extract_streams_overlap:
  assumes "extract_streams e url_path source_url html = Inr r"
  shows "set (m3u8_links r) \<inter> set (video_links r) =
    {u \<in> set (m3u8_links r) \<union> set (video_links r). mentions_m3u8 u \<and> mentions_video u}"
proof -
  from extract_streams_parts [OF assms] obtain xs where
    "m3u8_links r = m3u8_of xs" and "video_links r = video_of xs"
    by blast
  then show ?thesis by auto
qed

lemma extract_streams_urls_ok:
  assumes "extract_streams e url_path (source_url_of url_path) html = Inr r"
  shows "stream_urls_ok (Streams r)"
  using extract_streams_absolute [OF assms] extract_streams_overlap [OF assms]
  by (simp add: stream_urls_ok_def)

text \<open>An iframe that points to a playlist is in \<^verbatim>\<open>iframes\<close> and in \<^verbatim>\<open>m3u8_links\<close>.\<close>

lemma stream_iframe_overlap:
  "fst (get_streaming_links
      (plain_env (''<iframe src='' @ [CHR 0x22] @ ''https://x.test/a.m3u8'' @ [CHR 0x22] @ ''>''))
      ''show-1x1'' new_world) =
     Ok200 (Streams
       \<lparr>episode_url = ''show-1x1'',
        m3u8_links = [''https://x.test/a.m3u8''],
        video_links = [],
        iframes = [''https://x.test/a.m3u8''],
        total_streams = 2\<rparr>)"
  by code_simp

text \<open>An iframe that points to a video file is in \<^verbatim>\<open>iframes\<close> and in \<^verbatim>\<open>video_links\<close>.\<close>

lemma stream_iframe_video_overlap:
  "fst (get_streaming_links
      (plain_env (''<iframe src='' @ [CHR 0x22] @ ''https://x.test/b.mp4'' @ [CHR 0x22] @ ''>''))
      ''show-1x1'' new_world) =
     Ok200 (Streams
       \<lparr>episode_url = ''show-1x1'',
        m3u8_links = [],
        video_links = [''https://x.test/b.mp4''],
        iframes = [''https://x.test/b.mp4''],
        total_streams = 2\<rparr>)"
  by code_simp

lemma stream_page_mixed:
  "fst (get_streaming_links
      (plain_env (''https://x.test/a.m3u8 <iframe src='' @ [CHR 0x22] @ ''/embed/1'' @ [CHR 0x22] @ ''>''))
      ''show-1x1'' new_world) =
     Ok200 (Streams
       \<lparr>episode_url = ''show-1x1'',
        m3u8_links = [''https://x.test/a.m3u8''],
        video_links = [],
        iframes = [''https://animesalt.cc/embed/1''],
        total_streams = 2\<rparr>)"
  by code_simp


subsection \<open>The page URL as a base\<close>

lemma urlsplit_source_url:
  "\<exists>path query fragment.
     urlsplit e (source_url_of url_path) [] = Inr (''https'', ''animesalt.cc'', path, query, fragment)"
proof -
  obtain q where "source_url_of url_path = ''https://animesalt.cc/'' @ q"
    using source_url_of_prefix by blast
  then show ?thesis
    by (simp add: urlsplit_def Let_def clean_url_def c0_control_or_space_def unsafe_url_byte_def
        split_scheme_def isascii_alpha_def scheme_chars_def ascii_lowercase_def
        ascii_uppercase_def lower_def lower_char_def splitnetloc_def netloc_check_def
        split_first_def split: prod.splits)
qed

lemma urlparse_source_url:
  "\<exists>path params query fragment.
     urlparse e (source_url_of url_path) [] =
       Inr (''https'', ''animesalt.cc'', path, params, query, fragment)"
proof -
  from urlsplit_source_url [of e url_path] obtain path query fragment where
    "urlsplit e (source_url_of url_path) [] = Inr (''https'', ''animesalt.cc'', path, query, fragment)"
    by blast
  then show ?thesis by (simp add: urlparse_def)
qed

lemma source_url_not_Nil: "source_url_of url_path \<noteq> []"
  using source_url_of_prefix [of url_path] by auto

lemma urljoin_source_url_netloc:
  assumes "urlparse e u ''https'' = Inr (''https'', netloc, path, params, query, fragment)"
    and "netloc \<noteq> []" and "u \<noteq> []"
  shows "urljoin e (source_url_of url_path) u =
    Inr (urlunparse (''https'', netloc, path, params, query, fragment))"
proof -
  from urlparse_source_url [of e url_path] obtain bpath bparams bquery bfragment where
    "urlparse e (source_url_of url_path) [] =
       Inr (''https'', ''animesalt.cc'', bpath, bparams, bquery, bfragment)"
    by blast
  then show ?thesis
    using assms source_url_not_Nil [of url_path]
    by (simp add: urljoin_def uses_relative_def uses_netloc_def)
qed

lemma distinct_singleton: "distinct xs \<Longrightarrow> set xs = {a} \<Longrightarrow> xs = [a]"
  by (cases xs) (auto simp: insert_eq_iff dest: subset_singletonD)


subsection \<open>The patterns on the classification example\<close>

lemmas lower_char_lit = lower_char_def [of "Char b0 b1 b2 b3 b4 b5 b6 b7"] for b0 b1 b2 b3 b4 b5 b6 b7

lemmas isspace_lit = isspace_def [of "Char b0 b1 b2 b3 b4 b5 b6 b7"] for b0 b1 b2 b3 b4 b5 b6 b7

lemmas url_char_lit = url_char_def [of "Char b0 b1 b2 b3 b4 b5 b6 b7"] for b0 b1 b2 b3 b4 b5 b6 b7

lemma uppercase_url_chars: "list_all url_char ascii_uppercase"
  by code_simp

lemma not_url_char_lower:
  assumes "\<not> url_char d" and "url_char c" and "(of_char c :: nat) < 128"
  shows "(lower_char d = c) = False"
proof -
  have "lower_char d \<noteq> c"
  proof
    assume "lower_char d = c"
    from lower_char_ascii [OF this assms(3)] show False
    proof
      assume "d = c" with assms(1,2) show False by simp
    next
      assume "map_of (zip ascii_uppercase ascii_lowercase) d = Some c"
      then have "(d, c) \<in> set (zip ascii_uppercase ascii_lowercase)" by (rule map_of_SomeD)
      then have "d \<in> set ascii_uppercase" by (rule set_zip_leftD)
      with uppercase_url_chars have "url_char d" unfolding list_all_iff by blast
      with assms(1) show False by simp
    qed
  qed
  then show ?thesis by simp
qed

lemma not_url_char_neq:
  assumes "\<not> url_char d" and "url_char c"
  shows "(d = c) = False"
  using assms by auto

lemmas pattern_eval =
  m3u8_pattern_def video_pattern_def http_prefix_def imatch_def lower_def lower_char_lit
  ascii_uppercase_def ascii_lowercase_def m3u8_tail_def video_tail_def video_extensions_def
  url_char_lit isspace_lit not_url_char_lower not_url_char_neq

lemma pattern_at_separator:
  assumes "\<not> url_char d"
  shows "m3u8_pattern (d # rest) = None" and "video_pattern (d # rest) = None"
  using assms by (simp_all add: pattern_eval)

lemma findall_separators:
  assumes "list_all (\<lambda>c. \<not> url_char c) sep"
  shows "findall m3u8_pattern (sep @ rest) = findall m3u8_pattern rest"
    and "findall video_pattern (sep @ rest) = findall video_pattern rest"
  using assms by (induction sep) (simp_all add: pattern_at_separator)

lemma findall_m3u8_url:
  assumes "\<not> url_char d"
  shows "findall m3u8_pattern (''https://x.test/a.m3u8'' @ d # rest) =
      ''https://x.test/a.m3u8'' # findall m3u8_pattern rest"
    and "findall m3u8_pattern (''https://x.test/b.mp4'' @ d # rest) = findall m3u8_pattern rest"
    and "findall m3u8_pattern (''https://x.test/c.css'' @ d # rest) = findall m3u8_pattern rest"
  using assms by (simp_all add: pattern_eval)

lemma findall_video_url:
  assumes "\<not> url_char d"
  shows "findall video_pattern (''https://x.test/a.m3u8'' @ d # rest) = findall video_pattern rest"
    and "findall video_pattern (''https://x.test/b.mp4'' @ d # rest) =
      ''https://x.test/b.mp4'' # findall video_pattern rest"
    and "findall video_pattern (''https://x.test/c.css'' @ d # rest) = findall video_pattern rest"
  using assms by (simp_all add: pattern_eval)

lemma findall_last_url:
  "findall m3u8_pattern ''https://x.test/c.css'' = []"
  "findall video_pattern ''https://x.test/c.css'' = []"
  by code_simp+

lemma findall_three_urls:
  assumes "delimiters s0" and "delimiters s1" and "s1 \<noteq> []" and "delimiters s2" and "s2 \<noteq> []"
    and "delimiters s3"
  shows "findall m3u8_pattern
      (s0 @ ''https://x.test/a.m3u8'' @ s1 @ ''https://x.test/b.mp4'' @ s2 @
       ''https://x.test/c.css'' @ s3) = [''https://x.test/a.m3u8'']"
    and "findall video_pattern
      (s0 @ ''https://x.test/a.m3u8'' @ s1 @ ''https://x.test/b.mp4'' @ s2 @
       ''https://x.test/c.css'' @ s3) = [''https://x.test/b.mp4'']"
proof -
  from assms(2,3) obtain d1 t1 where s1: "s1 = d1 # t1" and d1: "\<not> url_char d1"
    and t1: "list_all (\<lambda>c. \<not> url_char c) t1"
    by (cases s1) (auto simp: delimiters_def)
  from assms(4,5) obtain d2 t2 where s2: "s2 = d2 # t2" and d2: "\<not> url_char d2"
    and t2: "list_all (\<lambda>c. \<not> url_char c) t2"
    by (cases s2) (auto simp: delimiters_def)
  have s0: "list_all (\<lambda>c. \<not> url_char c) s0" using assms(1) by (simp add: delimiters_def)
  have last_m: "findall m3u8_pattern (''https://x.test/c.css'' @ s3) = []"
  proof (cases s3)
    case Nil
    then show ?thesis by (simp only: append_Nil2 findall_last_url)
  next
    case (Cons d3 t3)
    with assms(6) have "\<not> url_char d3" and "list_all (\<lambda>c. \<not> url_char c) t3"
      by (simp_all add: delimiters_def)
    then show ?thesis
      using findall_m3u8_url(3) [of d3 t3] findall_separators(1) [of t3 "[]"]
      by (simp add: Cons)
  qed
  have last_v: "findall video_pattern (''https://x.test/c.css'' @ s3) = []"
  proof (cases s3)
    case Nil
    then show ?thesis by (simp only: append_Nil2 findall_last_url)
  next
    case (Cons d3 t3)
    with assms(6) have "\<not> url_char d3" and "list_all (\<lambda>c. \<not> url_char c) t3"
      by (simp_all add: delimiters_def)
    then show ?thesis
      using findall_video_url(3) [of d3 t3] findall_separators(2) [of t3 "[]"]
      by (simp add: Cons)
  qed
  show "findall m3u8_pattern
      (s0 @ ''https://x.test/a.m3u8'' @ s1 @ ''https://x.test/b.mp4'' @ s2 @
       ''https://x.test/c.css'' @ s3) = [''https://x.test/a.m3u8'']"
    unfolding s1 s2 findall_separators(1) [OF s0] append_Cons [symmetric]
    using findall_m3u8_url(1) [OF d1] findall_m3u8_url(2) [OF d2]
      findall_separators(1) [OF t1] findall_separators(1) [OF t2] last_m
    by (simp only: append_Cons append_Nil append_assoc)
  show "findall video_pattern
      (s0 @ ''https://x.test/a.m3u8'' @ s1 @ ''https://x.test/b.mp4'' @ s2 @
       ''https://x.test/c.css'' @ s3) = [''https://x.test/b.mp4'']"
    unfolding s1 s2 findall_separators(2) [OF s0]
    using findall_video_url(1) [OF d1] findall_video_url(2) [OF d2]
      findall_separators(2) [OF t1] findall_separators(2) [OF t2] last_v
    by (simp only: append_Cons append_Nil append_assoc)
qed

lemma urljoin_example:
  "urljoin e (source_url_of url_path) ''https://x.test/a.m3u8'' = Inr ''https://x.test/a.m3u8''"
  "urljoin e (source_url_of url_path) ''https://x.test/b.mp4'' = Inr ''https://x.test/b.mp4''"
proof -
  have a: "urlparse e ''https://x.test/a.m3u8'' ''https'' =
      Inr (''https'', ''x.test'', ''/a.m3u8'', [], [], [])"
    by code_simp
  have b: "urlparse e ''https://x.test/b.mp4'' ''https'' =
      Inr (''https'', ''x.test'', ''/b.mp4'', [], [], [])"
    by code_simp
  have ua: "urlunparse (''https'', ''x.test'', ''/a.m3u8'', [], [], []) = ''https://x.test/a.m3u8''"
    by code_simp
  have ub: "urlunparse (''https'', ''x.test'', ''/b.mp4'', [], [], []) = ''https://x.test/b.mp4''"
    by code_simp
  show "urljoin e (source_url_of url_path) ''https://x.test/a.m3u8'' = Inr ''https://x.test/a.m3u8''"
    using urljoin_source_url_netloc [OF a, of url_path] by (simp add: ua)
  show "urljoin e (source_url_of url_path) ''https://x.test/b.mp4'' = Inr ''https://x.test/b.mp4''"
    using urljoin_source_url_netloc [OF b, of url_path] by (simp add: ub)
qed

lemma classify_example:
  "mentions_m3u8 ''https://x.test/a.m3u8''" "\<not> mentions_video ''https://x.test/a.m3u8''"
  "\<not> mentions_m3u8 ''https://x.test/b.mp4''" "mentions_video ''https://x.test/b.mp4''"
  "\<not> is_asset ''https://x.test/a.m3u8''" "\<not> is_asset ''https://x.test/b.mp4''"
  "is_asset ''https://x.test/c.css''"
  by code_simp+

lemma delimiters_space: "delimiters '' ''" "delimiters []"
  by code_simp+


subsection \<open>Evaluations of the endpoint\<close>

lemma stream_page_ogg:
  "fst (get_streaming_links (plain_env ''https://x.test/a.ogg'') ''show-1x1'' new_world) =
     Ok200 (Streams \<lparr>episode_url = ''show-1x1'', m3u8_links = [], video_links = [],
       iframes = [], total_streams = 0\<rparr>)"
  by code_simp

text \<open>A URL that the second pattern finds but no bucket takes: it passes the filter and
  is in neither list of the response above, whose total is 0.\<close>

lemma unclassified_stream:
  "find_urls_in_text (plain_env []) ''https://x.test/a.ogg'' (source_url_of ''show-1x1'') =
     Inr [''https://x.test/a.ogg''] \<and>
   filtered_streams [''https://x.test/a.ogg''] = [''https://x.test/a.ogg'']"
  by code_simp


lemma stream_page_three_urls:
  "fst (get_streaming_links
      (plain_env ''https://x.test/a.m3u8 https://x.test/b.mp4 https://x.test/c.css'')
      ''show-1x1'' new_world) =
     Ok200 (Streams
       \<lparr>episode_url = ''show-1x1'',
        m3u8_links = [''https://x.test/a.m3u8''],
        video_links = [''https://x.test/b.mp4''],
        iframes = [],
        total_streams = 2\<rparr>)"
  by code_simp

text \<open>With separators that can be part of a URL the text of the example is one match of
  the first pattern, and the second pattern matches up to its last video extension.\<close>

lemma comma_separated_text:
  "find_urls_in_text (plain_env [])
     ''https://x.test/a.m3u8,https://x.test/b.mp4,https://x.test/c.css''
     (source_url_of ''show-1x1'') =
   Inr [''https://x.test/a.m3u8,https://x.test/b.mp4,https://x.test/c.css'',
        ''https://x.test/a.m3u8,https://x.test/b.mp4'']"
  by code_simp

subsection \<open>A script scan that fails\<close>

text \<open>The functions of the endpoint other than \<^verbatim>\<open>scan_js_file\<close> do not request scripts.\<close>

lemma netloc_check_env:
  assumes "check_bracketed_host e' = check_bracketed_host e" and "checknetloc e' = checknetloc e"
  shows "netloc_check e' = netloc_check e"
  by (rule ext) (simp only: netloc_check_def assms)

lemma urlsplit_env:
  assumes "check_bracketed_host e' = check_bracketed_host e" and "checknetloc e' = checknetloc e"
  shows "urlsplit e' = urlsplit e"
  by (rule ext)+ (simp only: urlsplit_def netloc_check_env [OF assms])

lemma urlparse_env:
  assumes "check_bracketed_host e' = check_bracketed_host e" and "checknetloc e' = checknetloc e"
  shows "urlparse e' = urlparse e"
  by (rule ext)+ (simp only: urlparse_def urlsplit_env [OF assms])

lemma urljoin_env:
  assumes "check_bracketed_host e' = check_bracketed_host e" and "checknetloc e' = checknetloc e"
  shows "urljoin e' = urljoin e"
  by (rule ext)+ (simp only: urljoin_def urlparse_env [OF assms])

lemma find_urls_in_text_env:
  assumes "check_bracketed_host e' = check_bracketed_host e" and "checknetloc e' = checknetloc e"
    and "hash_order e' = hash_order e"
  shows "find_urls_in_text e' = find_urls_in_text e"
  by (rule ext)+ (simp only: find_urls_in_text_def urljoin_env [OF assms(1,2)] assms(3))

lemma find_js_file_urls_env:
  assumes "check_bracketed_host e' = check_bracketed_host e" and "checknetloc e' = checknetloc e"
    and "hash_order e' = hash_order e"
  shows "find_js_file_urls e' = find_js_file_urls e"
  by (rule ext)+ (simp only: find_js_file_urls_def urljoin_env [OF assms(1,2)] assms(3))

lemma extract_streams_env:
  assumes "check_bracketed_host e' = check_bracketed_host e" and "checknetloc e' = checknetloc e"
    and "hash_order e' = hash_order e" and "js_completion e' = js_completion e"
    and "scan_js_file e' = scan_js_file e"
  shows "extract_streams e' = extract_streams e"
  by (rule ext)+
    (simp only: extract_streams_def urljoin_env [OF assms(1,2)]
      find_urls_in_text_env [OF assms(1-3)] find_js_file_urls_env [OF assms(1-3)] assms(3-5))

lemma get_streaming_links_env:
  assumes "clock e' = clock e" and "md5_hexdigest e' = md5_hexdigest e"
    and "session_get e' = session_get e"
    and "check_bracketed_host e' = check_bracketed_host e" and "checknetloc e' = checknetloc e"
    and "hash_order e' = hash_order e" and "js_completion e' = js_completion e"
    and "scan_js_file e' = scan_js_file e"
  shows "get_streaming_links e' url_path w = get_streaming_links e url_path w"
  unfolding get_streaming_links_def Let_def
  by (simp only: cache_get_env [OF assms(1)] cache_set_env [OF assms(1)]
      fetch_with_cache_env [OF assms(1-3)] extract_streams_env [OF assms(4-8)])

lemma find_urls_in_text_Nil: "find_urls_in_text e [] base_url = Inr []"
  by (simp add: find_urls_in_text_def list_set_def)

lemma scan_js_file_local_get:
  "scan_js_file (e\<lparr>local_get := g\<rparr>) v =
     (case g v of
        None \<Rightarrow> []
      | Some text \<Rightarrow> (case find_urls_in_text e text v of Inl ex \<Rightarrow> [] | Inr urls \<Rightarrow> urls))"
proof -
  have "find_urls_in_text (e\<lparr>local_get := g\<rparr>) = find_urls_in_text e"
    by (rule find_urls_in_text_env) simp_all
  then show ?thesis
    by (simp add: scan_js_file_def split: option.splits)
qed

lemma failed_script_result:
  assumes "outcome = None \<or> (\<exists>text ex. outcome = Some text \<and> find_urls_in_text e text u = Inl ex)"
  shows "scan_js_file (e\<lparr>local_get := (local_get e)(u := outcome)\<rparr>) u = []"
  using assms by (auto simp: scan_js_file_local_get)

lemma sibling_script_result:
  assumes "v \<noteq> u"
  shows "scan_js_file (e\<lparr>local_get := (local_get e)(u := outcome)\<rparr>) v = scan_js_file e v"
  using assms by (simp add: scan_js_file_local_get) (simp add: scan_js_file_def)

lemma failed_script_task:
  assumes "outcome = None \<or> (\<exists>text ex. outcome = Some text \<and> find_urls_in_text e text u = Inl ex)"
  shows "get_streaming_links (e\<lparr>local_get := (local_get e)(u := outcome)\<rparr>) url_path w =
    get_streaming_links (e\<lparr>local_get := (local_get e)(u := Some [])\<rparr>) url_path w"
proof (rule get_streaming_links_env)
  show "scan_js_file (e\<lparr>local_get := (local_get e)(u := outcome)\<rparr>) =
      scan_js_file (e\<lparr>local_get := (local_get e)(u := Some [])\<rparr>)"
  proof
    fix v
    show "scan_js_file (e\<lparr>local_get := (local_get e)(u := outcome)\<rparr>) v =
        scan_js_file (e\<lparr>local_get := (local_get e)(u := Some [])\<rparr>) v"
    proof (cases "v = u")
      case True
      have "scan_js_file (e\<lparr>local_get := (local_get e)(u := Some [])\<rparr>) u = []"
        by (simp add: scan_js_file_local_get find_urls_in_text_Nil)
      with failed_script_result [OF assms] True show ?thesis by simp
    next
      case False
      then show ?thesis by (simp add: sibling_script_result)
    qed
  qed
qed simp_all

text \<open>A page with two scripts: the request for the first fails, the second holds a
  playlist URL, which is in the response.\<close>

lemma stream_page_failed_script:
  "fst (get_streaming_links
      ((plain_env (''<script src='' @ [CHR 0x22] @ ''/a.js'' @ [CHR 0x22] @ ''></script>'' @
                   ''<script src='' @ [CHR 0x22] @ ''/b.js'' @ [CHR 0x22] @ ''></script>''))
         \<lparr>local_get := (\<lambda>u. if u = ''https://animesalt.cc/b.js''
                              then Some ''var s = `https://x.test/v.m3u8`;'' else None)\<rparr>)
      ''show-1x1'' new_world) =
     Ok200 (Streams
       \<lparr>episode_url = ''show-1x1'',
        m3u8_links = [''https://x.test/v.m3u8''],
        video_links = [],
        iframes = [],
        total_streams = 1\<rparr>)"
  by code_simp

section \<open>Properties of the stream endpoint\<close>

text \<open>
  Claim C2, as the program has it. For every stream request with a successful response,
  every URL in \<^verbatim>\<open>m3u8_links\<close>, \<^verbatim>\<open>video_links\<close> and \<^verbatim>\<open>iframes\<close> is absolute (it has a
  scheme). The lists are not disjoint: \<^verbatim>\<open>m3u8_links\<close> and \<^verbatim>\<open>video_links\<close> are filled by
  two independent tests on the same URLs and share exactly the URLs that mention both
  \<^verbatim>\<open>.m3u8\<close> and one of \<^verbatim>\<open>.mp4\<close>, \<^verbatim>\<open>.webm\<close>, \<^verbatim>\<open>.mov\<close>, \<^verbatim>\<open>.ts\<close>. A response can come from
  the cache, so the statement is an invariant of the cache.
\<close>

theorem stream_urls_absolute_overlap:
  assumes "cache_all stream_urls_ok w"
  shows "(\<forall>r. fst (get_streaming_links e url_path w) = Ok200 (Streams r) \<longrightarrow>
            (\<forall>u \<in> set (m3u8_links r) \<union> set (video_links r) \<union> set (iframes r). is_absolute u) \<and>
            set (m3u8_links r) \<inter> set (video_links r) =
              {u \<in> set (m3u8_links r) \<union> set (video_links r).
                 mentions_m3u8 u \<and> mentions_video u}) \<and>
         cache_all stream_urls_ok (snd (get_streaming_links e url_path w))"
proof
  show "\<forall>r. fst (get_streaming_links e url_path w) = Ok200 (Streams r) \<longrightarrow>
      (\<forall>u \<in> set (m3u8_links r) \<union> set (video_links r) \<union> set (iframes r). is_absolute u) \<and>
      set (m3u8_links r) \<inter> set (video_links r) =
        {u \<in> set (m3u8_links r) \<union> set (video_links r). mentions_m3u8 u \<and> mentions_video u}"
  proof (intro allI impI)
    fix r assume "fst (get_streaming_links e url_path w) = Ok200 (Streams r)"
    from get_streaming_links_result [OF this]
    have "stream_urls_ok (Streams r)"
    proof
      assume "fst (cache_get e (''stream_'' @ url_path) w) = Some (Streams r)"
      with assms show ?thesis by (rule cache_get_all(2))
    next
      assume "\<exists>html. extract_streams e url_path (source_url_of url_path) html = Inr r"
      then show ?thesis by (auto intro: extract_streams_urls_ok)
    qed
    then show "(\<forall>u \<in> set (m3u8_links r) \<union> set (video_links r) \<union> set (iframes r).
        is_absolute u) \<and>
      set (m3u8_links r) \<inter> set (video_links r) =
        {u \<in> set (m3u8_links r) \<union> set (video_links r). mentions_m3u8 u \<and> mentions_video u}"
      by (simp add: stream_urls_ok_def)
  qed
next
  show "cache_all stream_urls_ok (snd (get_streaming_links e url_path w))"
    using assms
    by (rule get_streaming_links_all) (simp_all add: stream_urls_ok_def extract_streams_urls_ok
        extract_streams_absolute extract_streams_overlap)
qed

text \<open>The page of the request holds the playlist URL of a video file: the URL is in both
  lists, so the lists of the response are not disjoint.\<close>

theorem stream_buckets_overlap:
  "fst (get_streaming_links (plain_env ''https://x.test/v.mp4/master.m3u8'') ''show-1x1''
      new_world) =
     Ok200 (Streams
       \<lparr>episode_url = ''show-1x1'',
        m3u8_links = [''https://x.test/v.mp4/master.m3u8''],
        video_links = [''https://x.test/v.mp4/master.m3u8'', ''https://x.test/v.mp4''],
        iframes = [],
        total_streams = 3\<rparr>) \<and>
   set [''https://x.test/v.mp4/master.m3u8''] \<inter>
     set [''https://x.test/v.mp4/master.m3u8'', ''https://x.test/v.mp4''] \<noteq> {}"
  by code_simp

theorem stream_urls_absolute_overlap_witness:
  "cache_all stream_urls_ok
     (snd (get_streaming_links
        (plain_env (''https://x.test/a.m3u8 <iframe src='' @ [CHR 0x22] @ ''/embed/1'' @
           [CHR 0x22] @ ''>''))
        ''show-1x1'' new_world)) \<and>
   list_all is_absolute [''https://x.test/a.m3u8'', ''https://animesalt.cc/embed/1'']"
proof -
  let ?e = "plain_env (''https://x.test/a.m3u8 <iframe src='' @ [CHR 0x22] @ ''/embed/1'' @
           [CHR 0x22] @ ''>'')"
  from stream_urls_absolute_overlap [OF cache_all_new_world [of stream_urls_ok],
      of ?e "''show-1x1''"]
  have urls: "\<forall>r. fst (get_streaming_links ?e ''show-1x1'' new_world) = Ok200 (Streams r) \<longrightarrow>
      (\<forall>u \<in> set (m3u8_links r) \<union> set (video_links r) \<union> set (iframes r). is_absolute u)"
    and inv: "cache_all stream_urls_ok (snd (get_streaming_links ?e ''show-1x1'' new_world))"
    by blast+
  from urls stream_page_mixed
  have "\<forall>u \<in> set [''https://x.test/a.m3u8''] \<union> set [] \<union> set [''https://animesalt.cc/embed/1''].
      is_absolute u"
    by fastforce
  then have "list_all is_absolute [''https://x.test/a.m3u8'', ''https://animesalt.cc/embed/1'']"
    by simp
  with inv show ?thesis by blast
qed

text \<open>
  Claim C6. In every successful stream response \<^verbatim>\<open>total_streams\<close> is the sum of the lengths
  of \<^verbatim>\<open>m3u8_links\<close>, \<^verbatim>\<open>video_links\<close> and \<^verbatim>\<open>iframes\<close>; nothing else enters it. A
  response can come from the cache, so the statement is an invariant of the cache.
\<close>

theorem total_streams_is_sum:
  assumes "cache_all sums_streams w"
  shows "(\<forall>r. fst (get_streaming_links e url_path w) = Ok200 (Streams r) \<longrightarrow>
            total_streams r = length (m3u8_links r) + length (video_links r) + length (iframes r)) \<and>
         cache_all sums_streams (snd (get_streaming_links e url_path w))"
proof
  show "\<forall>r. fst (get_streaming_links e url_path w) = Ok200 (Streams r) \<longrightarrow>
      total_streams r = length (m3u8_links r) + length (video_links r) + length (iframes r)"
  proof (intro allI impI)
    fix r assume "fst (get_streaming_links e url_path w) = Ok200 (Streams r)"
    from get_streaming_links_result [OF this]
    show "total_streams r = length (m3u8_links r) + length (video_links r) + length (iframes r)"
    proof
      assume "fst (cache_get e (''stream_'' @ url_path) w) = Some (Streams r)"
      from cache_get_all(2) [OF assms this] show ?thesis
        by (simp add: sums_streams_def)
    next
      assume "\<exists>html. extract_streams e url_path (source_url_of url_path) html = Inr r"
      then show ?thesis by (auto dest: extract_streams_total)
    qed
  qed
next
  show "cache_all sums_streams (snd (get_streaming_links e url_path w))"
    using assms
    by (rule get_streaming_links_all) (simp_all add: sums_streams_def extract_streams_total)
qed

theorem total_streams_is_sum_witness:
  "\<exists>r. fst (get_streaming_links (plain_env ''https://x.test/a.ogg'') ''show-1x1'' new_world) =
         Ok200 (Streams r) \<and>
       total_streams r = length (m3u8_links r) + length (video_links r) + length (iframes r) \<and>
       total_streams r = 0 \<and>
       cache_all sums_streams
         (snd (get_streaming_links (plain_env ''https://x.test/a.ogg'') ''show-1x1'' new_world))"
proof -
  let ?r = "\<lparr>episode_url = ''show-1x1'', m3u8_links = [], video_links = [], iframes = [],
    total_streams = 0\<rparr>"
  from total_streams_is_sum [OF cache_all_new_world [of sums_streams],
      of "plain_env ''https://x.test/a.ogg''" "''show-1x1''"]
  have sum: "\<forall>r. fst (get_streaming_links (plain_env ''https://x.test/a.ogg'') ''show-1x1''
        new_world) = Ok200 (Streams r) \<longrightarrow>
      total_streams r = length (m3u8_links r) + length (video_links r) + length (iframes r)"
    and inv: "cache_all sums_streams
      (snd (get_streaming_links (plain_env ''https://x.test/a.ogg'') ''show-1x1'' new_world))"
    by blast+
  from sum stream_page_ogg
  have "total_streams ?r = length (m3u8_links ?r) + length (video_links ?r) + length (iframes ?r)"
    by blast
  with stream_page_ogg inv show ?thesis
    by (intro exI [of _ ?r]) simp
qed

text \<open>
  Claim C8. For a text that contains exactly the URLs \<^verbatim>\<open>https://x.test/a.m3u8\<close>,
  \<^verbatim>\<open>https://x.test/b.mp4\<close> and \<^verbatim>\<open>https://x.test/c.css\<close>, delimited by characters that
  cannot be part of a URL, extraction against the URL of any page, followed by filtering
  and classification, puts the first URL into the playlist list and only there, the
  second into the video list and only there, and the third is not even extracted. This
  holds for every iteration order of the sets and every environment.
\<close>

theorem classify_three_urls:
  assumes "delimiters s0" and "delimiters s1" and "s1 \<noteq> []"
    and "delimiters s2" and "s2 \<noteq> []" and "delimiters s3"
  shows "\<exists>urls.
    find_urls_in_text e (three_urls_text s0 s1 s2 s3) (source_url_of url_path) = Inr urls \<and>
    m3u8_of (filtered_streams urls) = [''https://x.test/a.m3u8''] \<and>
    video_of (filtered_streams urls) = [''https://x.test/b.mp4''] \<and>
    ''https://x.test/c.css'' \<notin> set urls"
proof -
  let ?a = "''https://x.test/a.m3u8''" and ?b = "''https://x.test/b.mp4''"
  let ?urls = "list_set (hash_order e) [?a, ?b]"
  have found: "findall m3u8_pattern (three_urls_text s0 s1 s2 s3) @
      findall video_pattern (three_urls_text s0 s1 s2 s3) = [?a, ?b]"
    unfolding three_urls_text_def findall_three_urls(1) [OF assms]
      findall_three_urls(2) [OF assms]
    by simp
  have urls: "find_urls_in_text e (three_urls_text s0 s1 s2 s3) (source_url_of url_path) =
      Inr ?urls"
    unfolding find_urls_in_text_def Let_def found
    by (simp add: urljoin_example)
  have set_urls: "set ?urls = {?a, ?b}" and dist: "distinct ?urls"
    by simp_all
  have "set (m3u8_of (filtered_streams ?urls)) = {?a}"
    using classify_example by (auto simp: filtered_streams_def)
  moreover have "distinct (m3u8_of (filtered_streams ?urls))"
    using dist by (simp add: m3u8_of_def filtered_streams_def)
  ultimately have m: "m3u8_of (filtered_streams ?urls) = [?a]"
    by (intro distinct_singleton)
  have "set (video_of (filtered_streams ?urls)) = {?b}"
    using classify_example by (auto simp: filtered_streams_def)
  moreover have "distinct (video_of (filtered_streams ?urls))"
    using dist by (simp add: video_of_def filtered_streams_def)
  ultimately have v: "video_of (filtered_streams ?urls) = [?b]"
    by (intro distinct_singleton)
  have "''https://x.test/c.css'' \<notin> set ?urls"
    by simp
  with urls m v show ?thesis by blast
qed

theorem classify_three_urls_witness:
  "\<exists>urls.
     find_urls_in_text (plain_env [])
       ''https://x.test/a.m3u8 https://x.test/b.mp4 https://x.test/c.css''
       (source_url_of ''show-1x1'') = Inr urls \<and>
     m3u8_of (filtered_streams urls) = [''https://x.test/a.m3u8''] \<and>
     video_of (filtered_streams urls) = [''https://x.test/b.mp4''] \<and>
     ''https://x.test/c.css'' \<notin> set urls"
  using classify_three_urls [OF delimiters_space(2) delimiters_space(1) _ delimiters_space(1) _
      delimiters_space(2), of "plain_env []" "''show-1x1''"]
  by (simp add: three_urls_text_def)


section \<open>Properties of the two fan-outs\<close>

text \<open>
  Claim C4. A task of one of the two fan-outs that fails contributes nothing, leaves the
  results of the other tasks as they are, and does not change what becomes of the
  request. For the season tasks a failure is a \<^verbatim>\<open>RequestException\<close>, which the task
  catches, or any other exception, such as one of the parser, which the loop over the
  futures catches; for the script scans it is a failed request or an exception of the
  scan of the text. The contribution of the failed task is empty and that of every other
  task is what it is without the failure. The whole request, response and cache, ends as
  it does when the task succeeds with an empty result (no list items, a script without
  text). In particular, on a parsed page whose season buttons are all valid the response
  is the detail record with the items of the other seasons in the order of the buttons.
\<close>

theorem failed_task_is_empty_task:
  assumes "outcome = AjaxRequestException \<or> outcome = AjaxOtherError m"
    and "script = None \<or>
      (\<exists>text ex. script = Some text \<and> find_urls_in_text e text js_url = Inl ex)"
  shows "season_items (season_task_ends e i outcome) i b = [] \<and>
    (\<forall>k. k \<noteq> i \<longrightarrow> season_items (season_task_ends e i outcome) k b = season_items e k b) \<and>
    get_anime_info (season_task_ends e i outcome) url_path w =
      get_anime_info (season_task_ends e i (AjaxItems [])) url_path w \<and>
    (parsed_detail_page e url_path w = Some page \<longrightarrow> season_buttons page \<noteq> [] \<longrightarrow>
     (\<forall>button \<in> set (season_buttons page). valid_button button) \<longrightarrow>
       (\<exists>d. fst (get_anime_info (season_task_ends e i outcome) url_path w) = Ok200 (AnimeInfo d) \<and>
          episodes d =
            List.map_filter episode_of_item
              (concat (map (\<lambda>k. if k = i then [] else season_items e k (season_buttons page ! k))
                 [0..<length (season_buttons page)])))) \<and>
    scan_js_file (script_request_ends e js_url script) js_url = [] \<and>
    (\<forall>v. v \<noteq> js_url \<longrightarrow> scan_js_file (script_request_ends e js_url script) v = scan_js_file e v) \<and>
    get_streaming_links (script_request_ends e js_url script) stream_path w' =
      get_streaming_links (script_request_ends e js_url (Some [])) stream_path w'"
proof (intro conjI allI impI)
  show "season_items (season_task_ends e i outcome) i b = []"
    by (simp add: season_items_task_ends [OF assms(1)])
next
  fix k assume "k \<noteq> i"
  then show "season_items (season_task_ends e i outcome) k b = season_items e k b"
    by (simp add: season_items_task_ends [OF assms(1)])
next
  show "get_anime_info (season_task_ends e i outcome) url_path w =
      get_anime_info (season_task_ends e i (AjaxItems [])) url_path w"
    unfolding season_task_ends_def using assms(1) by (rule failed_season_task)
next
  assume "parsed_detail_page e url_path w = Some page" and "season_buttons page \<noteq> []"
    and "\<forall>button \<in> set (season_buttons page). valid_button button"
  with assms(1) show "\<exists>d. fst (get_anime_info (season_task_ends e i outcome) url_path w) =
        Ok200 (AnimeInfo d) \<and>
      episodes d =
        List.map_filter episode_of_item
          (concat (map (\<lambda>k. if k = i then [] else season_items e k (season_buttons page ! k))
             [0..<length (season_buttons page)]))"
    by (rule failed_season_all_valid)
next
  show "scan_js_file (script_request_ends e js_url script) js_url = []"
    unfolding script_request_ends_def using assms(2) by (rule failed_script_result)
next
  fix v assume "v \<noteq> js_url"
  then show "scan_js_file (script_request_ends e js_url script) v = scan_js_file e v"
    unfolding script_request_ends_def by (rule sibling_script_result)
next
  show "get_streaming_links (script_request_ends e js_url script) stream_path w' =
      get_streaming_links (script_request_ends e js_url (Some [])) stream_path w'"
    unfolding script_request_ends_def using assms(2) by (rule failed_script_task)
qed

theorem failed_task_is_empty_task_witness:
  "\<exists>d. fst (get_anime_info
       (season_task_ends (detail_env [button ''7'' ''1'', button ''7'' ''2'', button ''7'' ''3''])
          1 AjaxRequestException) ''series/x'' new_world) = Ok200 (AnimeInfo d) \<and>
     map episode_link (episodes d) = [''ep-1'', ''ep-3'']"
proof -
  let ?bs = "[button ''7'' ''1'', button ''7'' ''2'', button ''7'' ''3'']"
  let ?page = "empty_soup\<lparr>season_buttons := ?bs\<rparr>"
  have a: "AjaxRequestException = AjaxRequestException \<or>
      AjaxRequestException = AjaxOtherError ''parse''"
    by simp
  have b: "(None :: string option) = None \<or>
      (\<exists>text ex. None = Some text \<and>
         find_urls_in_text (detail_env ?bs) text ''https://x.test/s.js'' = Inl ex)"
    by simp
  have c: "parsed_detail_page (detail_env ?bs) ''series/x'' new_world = Some ?page"
    by (rule parsed_detail_page_detail_env)
  have d: "season_buttons ?page \<noteq> []"
    by simp
  have e: "\<forall>button \<in> set (season_buttons ?page). valid_button button"
    by (simp add: valid_button_def button_def nonempty_def)
  have upt3: "[0..<3] = [0, 1, 2]"
    by (simp add: upt_rec)
  from failed_task_is_empty_task [OF a b, of 1 "button ''7'' ''1''" "''series/x''" new_world ?page
      "''show-1x1''" new_world] c d e
  obtain r where
    r: "fst (get_anime_info (season_task_ends (detail_env ?bs) 1 AjaxRequestException) ''series/x''
          new_world) = Ok200 (AnimeInfo r)"
      "episodes r = List.map_filter episode_of_item
        (concat (map (\<lambda>k. if k = 1 then [] else season_items (detail_env ?bs) k
            (season_buttons ?page ! k))
           [0..<length (season_buttons ?page)]))"
    by blast
  have "map episode_link (episodes r) = [''ep-1'', ''ep-3'']"
    unfolding r(2)
    by (simp add: upt3 season_items_def get_episodes_for_season_def
        result_or_empty_def detail_env_def plain_env_def button_def link_item_def
        List.map_filter_def episode_of_item_def startswith_def lstrip_def remove_base_url_def
        BASE_URL_def)
  with r(1) show ?thesis by (intro exI [of _ r] conjI)
qed

end
